theory Spec2Isabelle
  imports Main "HOL-Library.Word"
begin

section \<open>Bytes, errors and Python slices\<close>

type_synonym byte = "8 word"
type_synonym bytes = "byte list"

text \<open>
  The exceptions that can leave the methods of \<open>AesGcmEnhanced\<close> (src/aes_gcm_iot.py):
  \<^item> \<open>KeyLengthError\<close>: the \<open>ValueError\<close> raised by \<open>set_key\<close> (line 44);
  \<^item> \<open>NoKeySet\<close>: the \<open>ValueError\<close> raised by \<open>decrypt\<close> (line 118);
  \<^item> \<open>NegativeLength\<close>: the \<open>ValueError\<close> of \<open>os.urandom\<close> on a negative size;
  \<^item> \<open>OverflowError\<close>: raised by \<open>os.urandom\<close> on a size that does not fit the
    machine's signed 64-bit size type;
  \<^item> \<open>StructError\<close>: \<open>struct.error\<close> of \<open>struct.pack_into\<close>;
  \<^item> \<open>InvalidTag\<close>: the exception of the cipher library when tag verification fails;
  \<^item> \<open>CipherValueError\<close>: the \<open>ValueError\<close> of the cipher library (key, nonce or tag
    of a length it does not accept).
\<close>

datatype error =
    KeyLengthError
  | NoKeySet
  | NegativeLength
  | OverflowError
  | StructError
  | InvalidTag
  | CipherValueError

text \<open>
  A Python slice bound on a sequence of length \<open>n\<close>: a negative bound counts from the
  end, and every bound is clamped into \<open>0..n\<close>.
\<close>

definition slice_index :: "nat \<Rightarrow> int \<Rightarrow> nat" where
  "slice_index n i = (if i < 0 then nat (max 0 (int n + i)) else min n (nat i))"

definition slice_bounds :: "nat \<Rightarrow> int option \<Rightarrow> int option \<Rightarrow> nat \<times> nat" where
  "slice_bounds n start stop =
     ((case start of None \<Rightarrow> 0 | Some i \<Rightarrow> slice_index n i),
      (case stop of None \<Rightarrow> n | Some j \<Rightarrow> slice_index n j))"

text \<open>\<open>xs[start:stop]\<close>\<close>

definition py_slice :: "int option \<Rightarrow> int option \<Rightarrow> 'a list \<Rightarrow> 'a list" where
  "py_slice start stop xs =
     (let (lo, hi) = slice_bounds (length xs) start stop
      in take (hi - lo) (drop lo xs))"

text \<open>\<open>xs[start:stop] = ys\<close> on a bytearray: the slice is replaced by \<open>ys\<close>.\<close>

definition py_slice_assign :: "int option \<Rightarrow> int option \<Rightarrow> 'a list \<Rightarrow> 'a list \<Rightarrow> 'a list" where
  "py_slice_assign start stop xs ys =
     (let (lo, hi) = slice_bounds (length xs) start stop
      in take lo xs @ ys @ drop (max lo hi) xs)"

text \<open>\<open>struct.pack('>I', v)\<close>: the four bytes of \<open>v\<close>, most significant first.\<close>

definition pack_be32 :: "int \<Rightarrow> bytes" where
  "pack_be32 v =
     [word_of_int (v div 16777216), word_of_int (v div 65536),
      word_of_int (v div 256), word_of_int v]"

definition unpack_be32 :: "bytes \<Rightarrow> int" where
  "unpack_be32 bs = foldl (\<lambda>acc b. acc * 256 + uint b) 0 bs"

text \<open>
  \<open>struct.pack_into('>I', buf, off, v)\<close>, with the buffer as the call leaves it. It
  raises \<open>struct.error\<close> when the buffer has no room for four bytes at \<open>off\<close>, before
  it writes anything, and when \<open>v\<close> is not an unsigned 32-bit value, after it has
  cleared the four bytes.
\<close>

definition pack_into_I :: "bytes \<Rightarrow> nat \<Rightarrow> int \<Rightarrow> (error + unit) \<times> bytes" where
  "pack_into_I buf off v =
     (if length buf < off + 4 then (Inl StructError, buf)
      else if v < 0 \<or> 4294967296 \<le> v
      then (Inl StructError, take off buf @ replicate 4 0 @ drop (off + 4) buf)
      else (Inr (), take off buf @ pack_be32 v @ drop (off + 4) buf))"

section \<open>The session object and the operating system's randomness\<close>

text \<open>The attributes that \<open>AesGcmEnhanced.__init__\<close> creates.\<close>

record session =
  key_size :: int
  key_bytes :: int
  key :: "bytes option"
  persistent_iv :: bool
  iv_counter :: int
  max_iv_counter :: int
  iv_buffer :: bytes
  initialized :: bool

text \<open>
  \<open>os.urandom\<close> reads the operating system's random bytes. They are an input of the
  program: the stream \<open>entropy\<close> of the bytes still to be handed out, of which every
  call consumes a prefix.
\<close>

record world = session +
  entropy :: "nat \<Rightarrow> byte"

definition init :: "int \<Rightarrow> bool \<Rightarrow> (nat \<Rightarrow> byte) \<Rightarrow> world" where
  "init ksize pers e =
     \<lparr> key_size = ksize, key_bytes = ksize div 8, key = None, persistent_iv = pers,
       iv_counter = 0, max_iv_counter = 2 ^ 32 - 1, iv_buffer = replicate 12 0,
       initialized = False, entropy = e \<rparr>"

definition urandom :: "nat \<Rightarrow> world \<Rightarrow> bytes \<times> world" where
  "urandom n w = (map (entropy w) [0..<n], w\<lparr>entropy := (\<lambda>i. entropy w (i + n))\<rparr>)"

text \<open>
  The sizes that \<open>os.urandom\<close> refuses: one outside the signed 64-bit range with
  \<open>OverflowError\<close>, a negative one with \<open>ValueError\<close>. (A size that the machine
  cannot allocate is beyond the model.)
\<close>

definition urandom_refuses :: "int \<Rightarrow> error option" where
  "urandom_refuses n =
     (if n < - 9223372036854775808 \<or> 9223372036854775807 < n then Some OverflowError
      else if n < 0 then Some NegativeLength
      else None)"

text \<open>
  Every method returns its result, or the exception it raised, together with the state
  it leaves behind: an exception does not undo the assignments made before it.
\<close>

definition generate_key :: "world \<Rightarrow> (error + bytes) \<times> world" where
  "generate_key w =
     (case urandom_refuses (key_bytes w) of
        Some e \<Rightarrow> (Inl e, w)
      | None \<Rightarrow> (let (k, w') = urandom (nat (key_bytes w)) w
                 in (Inr k, w'\<lparr>key := Some k\<rparr>)))"

definition set_key :: "bytes \<Rightarrow> world \<Rightarrow> (error + unit) \<times> world" where
  "set_key k w =
     (if int (length k) \<noteq> key_bytes w then (Inl KeyLengthError, w)
      else (Inr (), w\<lparr>key := Some k\<rparr>))"

definition init_iv_buffer :: "world \<Rightarrow> world" where
  "init_iv_buffer w =
     (let w1 = (if persistent_iv w
                then (let (random_prefix, w') = urandom 8 w
                      in w'\<lparr>iv_buffer :=
                               py_slice_assign (Some 0) (Some 8) (iv_buffer w') random_prefix,
                             iv_counter := 0\<rparr>)
                else w)
      in w1\<lparr>initialized := True\<rparr>)"

definition generate_iv :: "world \<Rightarrow> (error + bytes) \<times> world" where
  "generate_iv w =
     (let w1 = (if \<not> initialized w then init_iv_buffer w else w)
      in if \<not> persistent_iv w1
         then (let (random_iv, w2) = urandom 12 w1;
                   w3 = w2\<lparr>iv_buffer := py_slice_assign None None (iv_buffer w2) random_iv\<rparr>
               in (Inr (iv_buffer w3), w3))
         else (let w2 = (if iv_counter w1 \<ge> max_iv_counter w1 then init_iv_buffer w1 else w1);
                   w3 = w2\<lparr>iv_counter := iv_counter w2 + 1\<rparr>
               in case pack_into_I (iv_buffer w3) 8 (iv_counter w3) of
                    (Inl e, buf) \<Rightarrow> (Inl e, w3\<lparr>iv_buffer := buf\<rparr>)
                  | (Inr u, buf) \<Rightarrow> (Inr buf, w3\<lparr>iv_buffer := buf\<rparr>)))"

section \<open>The cipher library\<close>

text \<open>
  \<open>Cipher(algorithms.AES(key), modes.GCM(iv)).encryptor()\<close> and
  \<open>Cipher(algorithms.AES(key), modes.GCM(iv, tag)).decryptor()\<close> belong to the package
  \<open>cryptography\<close>, not to this repository: the two transforms are parameters of the
  model. The associated data is \<open>None\<close> when \<open>authenticate_additional_data\<close> is not
  called. \<open>gcm_encrypt key iv aad plaintext\<close> returns ciphertext and tag;
  \<open>gcm_decrypt key iv tag aad ciphertext\<close> returns the plaintext.
\<close>

record aead =
  gcm_encrypt :: "bytes \<Rightarrow> bytes \<Rightarrow> bytes option \<Rightarrow> bytes \<Rightarrow> error + bytes \<times> bytes"
  gcm_decrypt :: "bytes \<Rightarrow> bytes \<Rightarrow> bytes \<Rightarrow> bytes option \<Rightarrow> bytes \<Rightarrow> error + bytes"

text \<open>\<open>if associated_data:\<close> is false for \<open>None\<close> and for the empty byte string.\<close>

definition truthy :: "bytes option \<Rightarrow> bool" where
  "truthy a = (case a of None \<Rightarrow> False | Some [] \<Rightarrow> False | Some (x # xs) \<Rightarrow> True)"

definition authenticated :: "bytes option \<Rightarrow> bytes option" where
  "authenticated a = (if truthy a then a else None)"

section \<open>Encryption and decryption\<close>

text \<open>Lines 90 to 94 of \<open>encrypt\<close>: the key and the nonce that go to the cipher.\<close>

definition encrypt_key_iv :: "world \<Rightarrow> (error + bytes \<times> bytes) \<times> world" where
  "encrypt_key_iv w =
     (case (case key w of None \<Rightarrow> generate_key w | Some k \<Rightarrow> (Inr k, w)) of
        (Inl e, w1) \<Rightarrow> (Inl e, w1)
      | (Inr k, w1) \<Rightarrow>
          (case generate_iv w1 of
             (Inl e, w2) \<Rightarrow> (Inl e, w2)
           | (Inr iv, w2) \<Rightarrow> (Inr (k, iv), w2)))"

definition encrypt ::
  "aead \<Rightarrow> bytes \<Rightarrow> bytes option \<Rightarrow> world \<Rightarrow> (error + bytes \<times> bytes \<times> bytes) \<times> world" where
  "encrypt eng plaintext associated_data w =
     (case encrypt_key_iv w of
        (Inl e, w') \<Rightarrow> (Inl e, w')
      | (Inr (k, iv), w') \<Rightarrow>
          (case gcm_encrypt eng k iv (authenticated associated_data) plaintext of
             Inl e \<Rightarrow> (Inl e, w')
           | Inr (ciphertext, tag) \<Rightarrow> (Inr (iv, ciphertext, tag), w')))"

definition decrypt ::
  "aead \<Rightarrow> bytes \<Rightarrow> bytes \<Rightarrow> bytes \<Rightarrow> bytes option \<Rightarrow> world \<Rightarrow> (error + bytes) \<times> world" where
  "decrypt eng iv ciphertext tag associated_data w =
     (case key w of
        None \<Rightarrow> (Inl NoKeySet, w)
      | Some k \<Rightarrow> (gcm_decrypt eng k iv tag (authenticated associated_data) ciphertext, w))"

definition encrypt_combined ::
  "aead \<Rightarrow> bytes \<Rightarrow> bytes option \<Rightarrow> world \<Rightarrow> (error + bytes \<times> int \<times> int) \<times> world" where
  "encrypt_combined eng plaintext associated_data w =
     (case encrypt eng plaintext associated_data w of
        (Inl e, w') \<Rightarrow> (Inl e, w')
      | (Inr (iv, ciphertext, tag), w') \<Rightarrow>
          (let total_size = length iv + length ciphertext + length tag;
               result0 = replicate total_size (0 :: byte);
               result1 = py_slice_assign (Some 0) (Some (int (length iv))) result0 iv;
               result2 = py_slice_assign (Some (int (length iv)))
                           (Some (int (length iv) + int (length ciphertext))) result1 ciphertext;
               result3 = py_slice_assign (Some (int (length iv) + int (length ciphertext)))
                           None result2 tag
           in (Inr (result3, int (length iv), int (length tag)), w')))"

definition decrypt_combined ::
  "aead \<Rightarrow> bytes \<Rightarrow> int \<Rightarrow> int \<Rightarrow> bytes option \<Rightarrow> world \<Rightarrow> (error + bytes) \<times> world" where
  "decrypt_combined eng combined_data iv_size tag_size associated_data w =
     (let iv = py_slice None (Some iv_size) combined_data;
          tag = py_slice (Some (- tag_size)) None combined_data;
          ciphertext = py_slice (Some iv_size) (Some (- tag_size)) combined_data
      in decrypt eng iv ciphertext tag associated_data w)"

section \<open>What is assumed of the cipher library, and a stand-in to run the model\<close>

text \<open>
  The one property of the cipher library that the session relies on: a ciphertext and tag
  that encryption returned decrypt, under the same key, nonce and associated data, to the
  plaintext they came from.
\<close>

definition aead_roundtrip :: "aead \<Rightarrow> bool" where
  "aead_roundtrip eng =
     (\<forall>k iv a p c t.
        gcm_encrypt eng k iv a p = Inr (c, t) \<longrightarrow> gcm_decrypt eng k iv t a c = Inr p)"

text \<open>
  A small stand-in with the interface of the library, on which the model can be run: it
  is not AES-GCM. It accepts keys of 16, 24 and 32 bytes and nonces of at least 8 bytes,
  shifts every plaintext byte by one, and derives a 16-byte tag from key, nonce,
  associated data and ciphertext; decryption recomputes the tag and refuses a wrong one.
\<close>

definition demo_tag :: "bytes \<Rightarrow> bytes \<Rightarrow> bytes option \<Rightarrow> bytes \<Rightarrow> bytes" where
  "demo_tag k iv a c =
     take 16 (map (\<lambda>b. b + sum_list (case a of None \<Rightarrow> [] | Some x \<Rightarrow> x) + sum_list c)
                (iv @ k))"

definition demo_aead :: aead where
  "demo_aead =
     \<lparr> gcm_encrypt = (\<lambda>k iv a p.
         if length k \<notin> {16, 24, 32} \<or> length iv < 8 then Inl CipherValueError
         else Inr (map (\<lambda>b. b + 1) p, demo_tag k iv a (map (\<lambda>b. b + 1) p))),
       gcm_decrypt = (\<lambda>k iv t a c.
         if length k \<notin> {16, 24, 32} \<or> length iv < 8 \<or> length t < 16
         then Inl CipherValueError
         else if t = demo_tag k iv a c then Inr (map (\<lambda>b. b - 1) c)
         else Inl InvalidTag) \<rparr>"

text \<open>
  Two concrete sessions: \<open>AesGcmEnhanced(key_size=128, persistent_iv=...)\<close> on an
  operating system whose random bytes are 0, 1, 2, ...
\<close>

definition demo_entropy :: "nat \<Rightarrow> byte" where
  "demo_entropy i = of_nat i"

definition demo_session :: world where
  "demo_session = init 128 True demo_entropy"

definition demo_plaintext :: bytes where
  "demo_plaintext = [104, 114, 58, 55, 53]"

definition demo_key :: bytes where
  "demo_key = replicate 16 7"

definition keyed_session :: world where
  "keyed_session = snd (set_key demo_key demo_session)"

text \<open>Twenty-seven bytes, one fewer than the 12 + 16 of a nonce and a tag.\<close>

definition short_frame :: bytes where
  "short_frame = replicate 27 5"

section \<open>Sequences of calls and the nonce state\<close>

text \<open>
  The nonce state that the methods maintain: the counter within its 32 bits, the limit
  that \<open>__init__\<close> chose, the buffer of 12 bytes.
\<close>

definition nonce_state_ok :: "world \<Rightarrow> bool" where
  "nonce_state_ok w =
     (0 \<le> iv_counter w \<and> iv_counter w \<le> max_iv_counter w
      \<and> max_iv_counter w = 4294967295 \<and> length (iv_buffer w) = 12)"

text \<open>
  A persistent-nonce session that has not produced a nonce yet: \<open>_initialized\<close> is
  still false, as after \<open>__init__\<close> and after any \<open>set_key\<close> or \<open>generate_key\<close>.
\<close>

definition fresh_persistent :: "world \<Rightarrow> bool" where
  "fresh_persistent w =
     (persistent_iv w \<and> \<not> initialized w \<and> max_iv_counter w = 4294967295
      \<and> length (iv_buffer w) = 12)"

text \<open>The \<open>j\<close>-th block of eight bytes of a random stream.\<close>

definition prefix_at :: "(nat \<Rightarrow> byte) \<Rightarrow> nat \<Rightarrow> bytes" where
  "prefix_at e j = map (\<lambda>i. e (i + 8 * j)) [0..<8]"

text \<open>
  The nonce number \<open>i\<close> (from 0) of a persistent session that draws its prefixes from
  \<open>e\<close>: every \<open>2^32 - 1\<close> nonces the next prefix is drawn and the counter restarts at 1.
\<close>

definition nonce_at :: "(nat \<Rightarrow> byte) \<Rightarrow> nat \<Rightarrow> bytes" where
  "nonce_at e i = prefix_at e (i div 4294967295) @ pack_be32 (int (i mod 4294967295) + 1)"

text \<open>\<open>n\<close> calls of \<open>generate_iv\<close> in a row, and what each returned.\<close>

fun generate_ivs :: "nat \<Rightarrow> world \<Rightarrow> (error + bytes) list \<times> world" where
  "generate_ivs 0 w = ([], w)"
| "generate_ivs (Suc n) w =
     (let (r, w1) = generate_iv w; (rs, w2) = generate_ivs n w1 in (r # rs, w2))"

text \<open>The session after its nonce number \<open>i\<close>.\<close>

definition after_nonce :: "world \<Rightarrow> nat \<Rightarrow> world" where
  "after_nonce w i =
     w\<lparr>iv_counter := int (i mod 4294967295) + 1, iv_buffer := nonce_at (entropy w) i,
       initialized := True,
       entropy := (\<lambda>k. entropy w (k + 8 * (i div 4294967295 + 1)))\<rparr>"

text \<open>The public methods, and a session driven through any sequence of calls.\<close>

datatype call =
    GenerateKey
  | SetKey bytes
  | GenerateIv
  | Encrypt bytes "bytes option"
  | Decrypt bytes bytes bytes "bytes option"
  | EncryptCombined bytes "bytes option"
  | DecryptCombined bytes int int "bytes option"

fun call_method :: "aead \<Rightarrow> call \<Rightarrow> world \<Rightarrow> world" where
  "call_method eng GenerateKey w = snd (generate_key w)"
| "call_method eng (SetKey k) w = snd (set_key k w)"
| "call_method eng GenerateIv w = snd (generate_iv w)"
| "call_method eng (Encrypt p a) w = snd (encrypt eng p a w)"
| "call_method eng (Decrypt iv c t a) w = snd (decrypt eng iv c t a w)"
| "call_method eng (EncryptCombined p a) w = snd (encrypt_combined eng p a w)"
| "call_method eng (DecryptCombined f n m a) w = snd (decrypt_combined eng f n m a w)"

fun run :: "aead \<Rightarrow> call list \<Rightarrow> world \<Rightarrow> world" where
  "run eng [] w = w"
| "run eng (c # cs) w = run eng cs (call_method eng c w)"

definition session_ok :: "world \<Rightarrow> bool" where
  "session_ok w = (persistent_iv w \<and> nonce_state_ok w)"

text \<open>The demonstration session after \<open>2^32 - 1\<close> nonces: its counter is at the limit.\<close>

definition exhausted_session :: world where
  "exhausted_session = run demo_aead (replicate 4294967295 GenerateIv) demo_session"

text \<open>The demonstration session after its first nonce, and one with random nonces.\<close>

definition used_session :: world where
  "used_session = snd (generate_iv demo_session)"

definition random_session :: world where
  "random_session = init 128 False demo_entropy"

section \<open>The key and nonce pairs of a run of encryptions\<close>

text \<open>
  The (key, nonce) pairs of a run of \<open>encrypt\<close> calls alone, by plaintext and
  associated data. A call that fails before it has a key and a nonce contributes none.
\<close>

fun encrypt_pairs :: "aead \<Rightarrow> (bytes \<times> bytes option) list \<Rightarrow> world \<Rightarrow> (bytes \<times> bytes) list" where
  "encrypt_pairs eng [] w = []"
| "encrypt_pairs eng ((p, a) # ms) w =
     (case fst (encrypt_key_iv w) of Inl e \<Rightarrow> [] | Inr kiv \<Rightarrow> [kiv])
     @ encrypt_pairs eng ms (snd (encrypt eng p a w))"

text \<open>An operating system whose random bytes are all zero.\<close>

definition zero_entropy :: "nat \<Rightarrow> byte" where
  "zero_entropy i = 0"

section \<open>The nonces and draws of a run of calls\<close>

text \<open>
  The session on which a call generates its nonce, for the calls that generate one:
  \<open>generate_iv\<close> itself, and \<open>encrypt\<close> and \<open>encrypt_combined\<close>, which first give a
  session without a key its key (lines 90 and 91) and generate no nonce when that fails.
\<close>

definition encrypt_iv_state :: "world \<Rightarrow> world option" where
  "encrypt_iv_state w =
     (case key w of
        Some k \<Rightarrow> Some w
      | None \<Rightarrow> (case generate_key w of (Inl e, w1) \<Rightarrow> None | (Inr k, w1) \<Rightarrow> Some w1))"

fun iv_state :: "call \<Rightarrow> world \<Rightarrow> world option" where
  "iv_state GenerateIv w = Some w"
| "iv_state (Encrypt p a) w = encrypt_iv_state w"
| "iv_state (EncryptCombined p a) w = encrypt_iv_state w"
| "iv_state c w = None"

text \<open>
  What \<open>_init_iv_buffer\<close> and \<open>generate_iv\<close> take from \<open>os.urandom\<close>, in the order of
  lines 53, 70 and 77: the eight bytes of a prefix at each initialisation of a persistent
  session, the twelve bytes of the nonce of a random one.
\<close>

definition init_draw :: "world \<Rightarrow> bytes list" where
  "init_draw w = (if persistent_iv w then [map (entropy w) [0..<8]] else [])"

definition nonce_draw :: "world \<Rightarrow> bytes list" where
  "nonce_draw w =
     (let d1 = (if \<not> initialized w then init_draw w else []);
          w1 = (if \<not> initialized w then init_iv_buffer w else w)
      in if \<not> persistent_iv w1 then d1 @ [map (entropy w1) [0..<12]]
         else if iv_counter w1 \<ge> max_iv_counter w1 then d1 @ init_draw w1
         else d1)"

text \<open>
  For one call on a session: the random values drawn for its nonce, the nonce it
  generates, and the (key, nonce) pair that \<open>encrypt\<close> or \<open>encrypt_combined\<close> hands
  to the cipher. For a sequence of calls: the same, call after call.
\<close>

definition call_draws :: "call \<Rightarrow> world \<Rightarrow> bytes list" where
  "call_draws c w = (case iv_state c w of None \<Rightarrow> [] | Some v \<Rightarrow> nonce_draw v)"

definition call_nonces :: "call \<Rightarrow> world \<Rightarrow> bytes list" where
  "call_nonces c w =
     (case iv_state c w of
        None \<Rightarrow> []
      | Some v \<Rightarrow> (case fst (generate_iv v) of Inl e \<Rightarrow> [] | Inr iv \<Rightarrow> [iv]))"

fun call_pairs :: "call \<Rightarrow> world \<Rightarrow> (bytes \<times> bytes) list" where
  "call_pairs (Encrypt p a) w = (case fst (encrypt_key_iv w) of Inl e \<Rightarrow> [] | Inr kiv \<Rightarrow> [kiv])"
| "call_pairs (EncryptCombined p a) w =
     (case fst (encrypt_key_iv w) of Inl e \<Rightarrow> [] | Inr kiv \<Rightarrow> [kiv])"
| "call_pairs c w = []"

fun run_draws :: "aead \<Rightarrow> call list \<Rightarrow> world \<Rightarrow> bytes list" where
  "run_draws eng [] w = []"
| "run_draws eng (c # cs) w = call_draws c w @ run_draws eng cs (call_method eng c w)"

fun run_nonces :: "aead \<Rightarrow> call list \<Rightarrow> world \<Rightarrow> bytes list" where
  "run_nonces eng [] w = []"
| "run_nonces eng (c # cs) w = call_nonces c w @ run_nonces eng cs (call_method eng c w)"

fun run_pairs :: "aead \<Rightarrow> call list \<Rightarrow> world \<Rightarrow> (bytes \<times> bytes) list" where
  "run_pairs eng [] w = []"
| "run_pairs eng (c # cs) w = call_pairs c w @ run_pairs eng cs (call_method eng c w)"

text \<open>
  The prefix that the coming nonces of a persistent session will carry, if any: none
  before the first nonce, and none once the counter is at its limit.
\<close>

definition prefix_in_use :: "world \<Rightarrow> bytes list" where
  "prefix_in_use w =
     (if persistent_iv w \<and> initialized w \<and> iv_counter w < max_iv_counter w
      then [take 8 (iv_buffer w)] else [])"

text \<open>Two sessions with the same nonce state.\<close>

definition same_nonce_state :: "world \<Rightarrow> world \<Rightarrow> bool" where
  "same_nonce_state v w =
     (initialized v = initialized w \<and> iv_counter v = iv_counter w
      \<and> iv_buffer v = iv_buffer w \<and> max_iv_counter v = max_iv_counter w
      \<and> persistent_iv v = persistent_iv w)"

text \<open>
  A nonce of a persistent session \<open>w\<close> that comes after its current one: the prefix in
  use with a greater counter, or one of the prefixes \<open>ds\<close> drawn since.
\<close>

definition later_nonce :: "world \<Rightarrow> bytes list \<Rightarrow> bytes \<Rightarrow> bool" where
  "later_nonce w ds n =
     (\<exists>pre c. n = pre @ pack_be32 c \<and> length pre = 8 \<and> 1 \<le> c \<and> c \<le> 4294967295
        \<and> (pre \<in> set ds
            \<or> (initialized w \<and> pre = take 8 (iv_buffer w) \<and> iv_counter w < c)))"

text \<open>Calls for the demonstration sessions.\<close>

definition two_encryptions :: "call list" where
  "two_encryptions = [Encrypt demo_plaintext None, Encrypt demo_plaintext (Some [9])]"

definition demo_calls :: "call list" where
  "demo_calls =
     [SetKey demo_key, Encrypt demo_plaintext None, GenerateIv,
      EncryptCombined demo_plaintext (Some [9]), GenerateKey, Encrypt demo_plaintext None]"

section \<open>Setting a key\<close>

text \<open>
  C6. \<open>set_key k\<close> raises the key-length error exactly when the length of \<open>k\<close> differs
  from the configured key size in bytes (\<open>key_bytes\<close>, which \<open>__init__\<close> sets to
  \<open>key_size // 8\<close>); when the length matches, it succeeds and the session's key is \<open>k\<close>,
  every other attribute unchanged.
\<close>

theorem set_key_length_check:
  "(fst (set_key k w) = Inl KeyLengthError \<longleftrightarrow> int (length k) \<noteq> key_bytes w)
   \<and> ((\<exists>e. fst (set_key k w) = Inl e) \<longleftrightarrow> int (length k) \<noteq> key_bytes w)
   \<and> (int (length k) = key_bytes w \<longrightarrow>
        set_key k w = (Inr (), w\<lparr>key := Some k\<rparr>) \<and> key (snd (set_key k w)) = Some k)
   \<and> key_bytes (init ksize pers e) = ksize div 8"
  by (simp add: set_key_def init_def)

theorem set_key_length_check_witness:
  "fst (set_key (replicate 16 7) (init 128 True (\<lambda>i. 0))) \<noteq> Inl KeyLengthError
   \<and> key (snd (set_key (replicate 16 7) (init 128 True (\<lambda>i. 0)))) = Some (replicate 16 7)
   \<and> fst (set_key (replicate 15 7) (init 128 True (\<lambda>i. 0))) = Inl KeyLengthError"
  using set_key_length_check [of "replicate 16 7" "init 128 True (\<lambda>i. 0)" 128 True "\<lambda>i. 0"]
        set_key_length_check [of "replicate 15 7" "init 128 True (\<lambda>i. 0)" 128 True "\<lambda>i. 0"]
  by (simp add: init_def)

section \<open>Encrypting and decrypting\<close>

lemma demo_aead_roundtrip: "aead_roundtrip demo_aead"
  by (auto simp: aead_roundtrip_def demo_aead_def demo_tag_def comp_def split: if_splits)

lemma init_iv_buffer_key: "key (init_iv_buffer w) = key w"
  by (simp add: init_iv_buffer_def urandom_def Let_def)

lemma generate_iv_key: "key (snd (generate_iv w)) = key w"
  by (simp add: generate_iv_def urandom_def Let_def init_iv_buffer_key split: prod.splits sum.splits)

lemma generate_key_Inr: "generate_key w = (Inr k, w') \<Longrightarrow> key w' = Some k"
  by (auto simp: generate_key_def urandom_def Let_def split: option.splits)

lemma encrypt_key_iv_Inr:
  assumes "encrypt_key_iv w = (Inr (k, iv), w')"
  shows "key w' = Some k"
proof (cases "key w")
  case None
  with assms obtain w1 where g: "generate_key w = (Inr k, w1)"
    and i: "generate_iv w1 = (Inr iv, w')"
    by (auto simp: encrypt_key_iv_def split: prod.splits sum.splits)
  from i have "key w' = key w1" using generate_iv_key [of w1] by simp
  with generate_key_Inr [OF g] show ?thesis by simp
next
  case (Some k0)
  with assms have i: "generate_iv w = (Inr iv, w')" and "k0 = k"
    by (auto simp: encrypt_key_iv_def split: prod.splits sum.splits)
  from i have "key w' = key w" using generate_iv_key [of w] by simp
  with Some \<open>k0 = k\<close> show ?thesis by simp
qed

text \<open>
  A triple returned by \<open>encrypt\<close> is what the cipher produced under the key that the
  session holds afterwards.
\<close>

lemma encrypt_Inr:
  assumes "encrypt eng p aad w = (Inr (iv, c, t), w')"
  shows "\<exists>k. key w' = Some k \<and> gcm_encrypt eng k iv (authenticated aad) p = Inr (c, t)"
proof -
  from assms obtain k where e: "encrypt_key_iv w = (Inr (k, iv), w')"
    and g: "gcm_encrypt eng k iv (authenticated aad) p = Inr (c, t)"
    by (auto simp: encrypt_def split: prod.splits sum.splits)
  with encrypt_key_iv_Inr [OF e] show ?thesis by blast
qed

lemma decrypt_after_encrypt:
  assumes "aead_roundtrip eng" and "encrypt eng p aad w = (Inr (iv, c, t), w')"
    and same: "authenticated aad' = authenticated aad"
  shows "decrypt eng iv c t aad' w' = (Inr p, w')"
proof -
  from encrypt_Inr [OF assms(2)] obtain k where k: "key w' = Some k"
    and g: "gcm_encrypt eng k iv (authenticated aad) p = Inr (c, t)" by blast
  from assms(1) g have "gcm_decrypt eng k iv t (authenticated aad) c = Inr p"
    by (simp add: aead_roundtrip_def)
  with k same show ?thesis by (simp add: decrypt_def)
qed

lemma demo_encrypt:
  "fst (encrypt demo_aead demo_plaintext (Some [9]) demo_session) =
     Inr ([16, 17, 18, 19, 20, 21, 22, 23, 0, 0, 0, 1], [105, 115, 59, 56, 54],
          [158, 159, 160, 161, 162, 163, 164, 165, 142, 142, 142, 143, 142, 143, 144, 145])"
  by code_simp

text \<open>
  C3. Whenever \<open>encrypt(plaintext, aad)\<close> returns a triple (nonce, ciphertext, tag),
  \<open>decrypt\<close> of that triple on the same session with the same associated data returns
  exactly the plaintext, for any session, plaintext and optional associated data. The
  cipher library is assumed to invert its own encryption (\<open>aead_roundtrip\<close>).
\<close>

theorem encrypt_decrypt_roundtrip:
  assumes "aead_roundtrip eng"
    and "encrypt eng p aad w = (Inr (iv, c, t), w')"
  shows "decrypt eng iv c t aad w' = (Inr p, w')"
  using assms by (rule decrypt_after_encrypt) simp

theorem encrypt_decrypt_roundtrip_witness:
  "aead_roundtrip demo_aead
   \<and> fst (encrypt demo_aead demo_plaintext (Some [9]) demo_session) =
       Inr ([16, 17, 18, 19, 20, 21, 22, 23, 0, 0, 0, 1], [105, 115, 59, 56, 54],
            [158, 159, 160, 161, 162, 163, 164, 165, 142, 142, 142, 143, 142, 143, 144, 145])
   \<and> fst (decrypt demo_aead [16, 17, 18, 19, 20, 21, 22, 23, 0, 0, 0, 1] [105, 115, 59, 56, 54]
            [158, 159, 160, 161, 162, 163, 164, 165, 142, 142, 142, 143, 142, 143, 144, 145]
            (Some [9]) (snd (encrypt demo_aead demo_plaintext (Some [9]) demo_session))) =
       Inr demo_plaintext"
proof -
  let ?w' = "snd (encrypt demo_aead demo_plaintext (Some [9]) demo_session)"
  have e: "encrypt demo_aead demo_plaintext (Some [9]) demo_session =
      (Inr ([16, 17, 18, 19, 20, 21, 22, 23, 0, 0, 0, 1], [105, 115, 59, 56, 54],
            [158, 159, 160, 161, 162, 163, 164, 165, 142, 142, 142, 143, 142, 143, 144, 145]), ?w')"
    using demo_encrypt by (simp add: prod_eq_iff)
  from encrypt_decrypt_roundtrip [OF demo_aead_roundtrip e] demo_aead_roundtrip demo_encrypt
  show ?thesis by simp
qed

text \<open>
  C10. The empty byte string as associated data is the same as no associated data: the
  test \<open>if associated_data:\<close> is false for both, so the cipher is handed none. The calls
  \<open>encrypt\<close>, \<open>decrypt\<close> and their combined forms return the same with \<open>b""\<close> as with
  \<open>None\<close>, and what was encrypted with the one decrypts with the other.
\<close>

theorem empty_aad_is_no_aad:
  "authenticated (Some []) = None
   \<and> encrypt eng p (Some []) w = encrypt eng p None w
   \<and> decrypt eng iv c t (Some []) w = decrypt eng iv c t None w
   \<and> encrypt_combined eng p (Some []) w = encrypt_combined eng p None w
   \<and> decrypt_combined eng frame n m (Some []) w = decrypt_combined eng frame n m None w
   \<and> (aead_roundtrip eng \<and> encrypt eng p (Some []) w = (Inr (iv, c, t), w')
        \<longrightarrow> decrypt eng iv c t None w' = (Inr p, w'))
   \<and> (aead_roundtrip eng \<and> encrypt eng p None w = (Inr (iv, c, t), w')
        \<longrightarrow> decrypt eng iv c t (Some []) w' = (Inr p, w'))"
proof -
  have a: "authenticated (Some []) = None" "authenticated None = None"
    by (simp_all add: authenticated_def truthy_def)
  have e: "encrypt eng p (Some []) w = encrypt eng p None w"
    unfolding encrypt_def a by (rule refl)
  have d: "decrypt eng iv' c' t' (Some []) w = decrypt eng iv' c' t' None w" for iv' c' t'
    unfolding decrypt_def a by (rule refl)
  have ec: "encrypt_combined eng p (Some []) w = encrypt_combined eng p None w"
    unfolding encrypt_combined_def e by (rule refl)
  have dc: "decrypt_combined eng frame n m (Some []) w = decrypt_combined eng frame n m None w"
    unfolding decrypt_combined_def d by (rule refl)
  have r1: "decrypt eng iv c t None w' = (Inr p, w')"
    if "aead_roundtrip eng" "encrypt eng p (Some []) w = (Inr (iv, c, t), w')"
    using that by (rule decrypt_after_encrypt) (simp add: a)
  have r2: "decrypt eng iv c t (Some []) w' = (Inr p, w')"
    if "aead_roundtrip eng" "encrypt eng p None w = (Inr (iv, c, t), w')"
    using that by (rule decrypt_after_encrypt) (simp add: a)
  from a(1) e d ec dc r1 r2 show ?thesis by blast
qed

lemma demo_encrypt_empty_aad:
  "fst (encrypt demo_aead demo_plaintext (Some []) demo_session) =
     Inr ([16, 17, 18, 19, 20, 21, 22, 23, 0, 0, 0, 1], [105, 115, 59, 56, 54],
          [149, 150, 151, 152, 153, 154, 155, 156, 133, 133, 133, 134, 133, 134, 135, 136])"
  by code_simp

theorem empty_aad_is_no_aad_witness:
  "aead_roundtrip demo_aead
   \<and> fst (encrypt demo_aead demo_plaintext (Some []) demo_session) =
       Inr ([16, 17, 18, 19, 20, 21, 22, 23, 0, 0, 0, 1], [105, 115, 59, 56, 54],
            [149, 150, 151, 152, 153, 154, 155, 156, 133, 133, 133, 134, 133, 134, 135, 136])
   \<and> fst (decrypt demo_aead [16, 17, 18, 19, 20, 21, 22, 23, 0, 0, 0, 1] [105, 115, 59, 56, 54]
            [149, 150, 151, 152, 153, 154, 155, 156, 133, 133, 133, 134, 133, 134, 135, 136]
            None (snd (encrypt demo_aead demo_plaintext (Some []) demo_session))) =
       Inr demo_plaintext"
proof -
  let ?w' = "snd (encrypt demo_aead demo_plaintext (Some []) demo_session)"
  let ?iv = "[16, 17, 18, 19, 20, 21, 22, 23, 0, 0, 0, 1] :: bytes"
  let ?c = "[105, 115, 59, 56, 54] :: bytes"
  let ?t = "[149, 150, 151, 152, 153, 154, 155, 156, 133, 133, 133, 134, 133, 134, 135, 136] :: bytes"
  have e: "encrypt demo_aead demo_plaintext (Some []) demo_session = (Inr (?iv, ?c, ?t), ?w')"
    using demo_encrypt_empty_aad by (simp add: prod_eq_iff)
  from empty_aad_is_no_aad [of demo_aead demo_plaintext demo_session ?iv ?c ?t _ _ _ ?w']
  have "aead_roundtrip demo_aead \<and> encrypt demo_aead demo_plaintext (Some []) demo_session =
          (Inr (?iv, ?c, ?t), ?w')
        \<longrightarrow> decrypt demo_aead ?iv ?c ?t None ?w' = (Inr demo_plaintext, ?w')"
    by blast
  with demo_aead_roundtrip e demo_encrypt_empty_aad show ?thesis by simp
qed

section \<open>Decrypting without a key\<close>

lemma demo_session_no_key: "key demo_session = None"
  by (simp add: demo_session_def init_def)

text \<open>
  C7, as the code has it. \<open>decrypt\<close> on a session without a key raises the
  \<open>ValueError\<close> of line 118 (\<open>NoKeySet\<close>) before the cipher is created: the caller gets
  that error and no plaintext, the session is unchanged, and so it is for the combined
  form. A session is without a key from \<open>__init__\<close> until \<open>set_key\<close>,
  \<open>generate_key\<close> or \<open>encrypt\<close>.
\<close>

theorem decrypt_without_key:
  assumes "key w = None"
  shows "decrypt eng iv c t aad w = (Inl NoKeySet, w)
         \<and> decrypt_combined eng frame n m aad w = (Inl NoKeySet, w)
         \<and> (\<forall>p. fst (decrypt eng iv c t aad w) \<noteq> Inr p)"
  using assms by (simp add: decrypt_def decrypt_combined_def)

theorem decrypt_without_key_witness:
  "key demo_session = None
   \<and> decrypt demo_aead [16, 17, 18, 19, 20, 21, 22, 23, 0, 0, 0, 1] [105, 115, 59, 56, 54]
        [158, 159, 160, 161, 162, 163, 164, 165, 142, 142, 142, 143, 142, 143, 144, 145]
        (Some [9]) demo_session = (Inl NoKeySet, demo_session)"
  using decrypt_without_key [OF demo_session_no_key] demo_session_no_key by simp

text \<open>
  The error is not the authentication failure of the cipher (\<open>InvalidTag\<close>): on the
  fresh session \<open>AesGcmEnhanced(128)\<close>, \<open>decrypt\<close> raises \<open>NoKeySet\<close>.
\<close>

theorem decrypt_without_key_counterexample:
  "fst (decrypt demo_aead [16, 17, 18, 19, 20, 21, 22, 23, 0, 0, 0, 1] [105, 115, 59, 56, 54]
        [158, 159, 160, 161, 162, 163, 164, 165, 142, 142, 142, 143, 142, 143, 144, 145]
        (Some [9]) demo_session) = Inl NoKeySet
   \<and> fst (decrypt demo_aead [16, 17, 18, 19, 20, 21, 22, 23, 0, 0, 0, 1] [105, 115, 59, 56, 54]
        [158, 159, 160, 161, 162, 163, 164, 165, 142, 142, 142, 143, 142, 143, 144, 145]
        (Some [9]) demo_session) \<noteq> Inl InvalidTag"
  by (simp add: decrypt_def demo_session_no_key)

section \<open>The combined frame\<close>

lemma combined_buffer:
  fixes iv c t :: bytes
  defines "r0 \<equiv> replicate (length iv + length c + length t) (0 :: byte)"
  defines "r1 \<equiv> py_slice_assign (Some 0) (Some (int (length iv))) r0 iv"
  defines "r2 \<equiv> py_slice_assign (Some (int (length iv)))
                           (Some (int (length iv) + int (length c))) r1 c"
  shows "py_slice_assign (Some (int (length iv) + int (length c))) None r2 t = iv @ c @ t"
proof -
  have 1: "r1 = iv @ replicate (length c + length t) 0"
    unfolding r1_def r0_def
    by (simp add: py_slice_assign_def slice_bounds_def slice_index_def)
  have 2: "r2 = iv @ c @ replicate (length t) 0"
    unfolding r2_def 1
    by (simp add: py_slice_assign_def slice_bounds_def slice_index_def nat_add_distrib)
  show ?thesis
    unfolding 2
    by (simp add: py_slice_assign_def slice_bounds_def slice_index_def nat_add_distrib)
qed

lemma encrypt_combined_frame:
  "encrypt_combined eng p aad w =
     (case encrypt eng p aad w of
        (Inl e, w') \<Rightarrow> (Inl e, w')
      | (Inr (iv, c, t), w') \<Rightarrow> (Inr (iv @ c @ t, int (length iv), int (length t)), w'))"
  by (simp add: encrypt_combined_def Let_def combined_buffer split: prod.splits sum.splits)

text \<open>
  C9. The frame of \<open>encrypt_combined\<close> is nonce, ciphertext and tag of the triple that
  \<open>encrypt\<close> produced, one after the other and nothing else: the three slice assignments
  into the zeroed buffer overwrite all of it. Its length is the sum of the three lengths.
  The call also returns the lengths of nonce and tag.
\<close>

theorem encrypt_combined_layout:
  assumes "encrypt eng p aad w = (Inr (iv, c, t), w')"
  shows "encrypt_combined eng p aad w =
           (Inr (iv @ c @ t, int (length iv), int (length t)), w')
         \<and> length (iv @ c @ t) = length iv + length c + length t"
  using assms by (simp add: encrypt_combined_frame)

theorem encrypt_combined_layout_witness:
  "fst (encrypt demo_aead demo_plaintext (Some [9]) demo_session) =
       Inr ([16, 17, 18, 19, 20, 21, 22, 23, 0, 0, 0, 1], [105, 115, 59, 56, 54],
            [158, 159, 160, 161, 162, 163, 164, 165, 142, 142, 142, 143, 142, 143, 144, 145])
   \<and> fst (encrypt_combined demo_aead demo_plaintext (Some [9]) demo_session) =
       Inr ([16, 17, 18, 19, 20, 21, 22, 23, 0, 0, 0, 1, 105, 115, 59, 56, 54,
             158, 159, 160, 161, 162, 163, 164, 165, 142, 142, 142, 143, 142, 143, 144, 145],
            12, 16)"
proof -
  let ?w' = "snd (encrypt demo_aead demo_plaintext (Some [9]) demo_session)"
  have e: "encrypt demo_aead demo_plaintext (Some [9]) demo_session =
      (Inr ([16, 17, 18, 19, 20, 21, 22, 23, 0, 0, 0, 1], [105, 115, 59, 56, 54],
            [158, 159, 160, 161, 162, 163, 164, 165, 142, 142, 142, 143, 142, 143, 144, 145]), ?w')"
    using demo_encrypt by (simp add: prod_eq_iff)
  from encrypt_combined_layout [OF e] demo_encrypt show ?thesis by simp
qed

lemma short_frame_slices:
  assumes "0 \<le> n" and "0 < m" and "int (length f) < n + m"
  shows "py_slice None (Some n) f = take (nat n) f"
    and "py_slice (Some (- m)) None f = drop (length f - nat m) f"
    and "py_slice (Some n) (Some (- m)) f = []"
  using assms
  by (auto simp: py_slice_def slice_bounds_def slice_index_def min_def max_def nat_diff_distrib')

text \<open>
  C4, as the code has it. \<open>decrypt_combined\<close> has no length check. On a frame shorter
  than \<open>iv_size + tag_size\<close> (with \<open>iv_size\<close> not negative and \<open>tag_size\<close> positive, as
  the defaults 12 and 16 are) the three slices are the first \<open>iv_size\<close> bytes, the last
  \<open>tag_size\<close> bytes and an empty ciphertext, and the call is \<open>decrypt\<close> on these: the
  no-key error on a session without a key, and otherwise whatever the cipher answers.
\<close>

theorem decrypt_combined_short_frame:
  assumes "0 \<le> iv_size" and "0 < tag_size" and "int (length frame) < iv_size + tag_size"
  shows "decrypt_combined eng frame iv_size tag_size aad w =
           decrypt eng (take (nat iv_size) frame) []
             (drop (length frame - nat tag_size) frame) aad w
         \<and> (key w = None \<longrightarrow>
              decrypt_combined eng frame iv_size tag_size aad w = (Inl NoKeySet, w))
         \<and> (\<forall>k. key w = Some k \<longrightarrow>
              decrypt_combined eng frame iv_size tag_size aad w =
                (gcm_decrypt eng k (take (nat iv_size) frame)
                   (drop (length frame - nat tag_size) frame) (authenticated aad) [], w))"
  by (simp add: decrypt_combined_def short_frame_slices [OF assms] decrypt_def)

lemma keyed_session_key: "key keyed_session = Some demo_key"
  by (simp add: keyed_session_def set_key_def demo_key_def demo_session_def init_def)

theorem decrypt_combined_short_frame_witness:
  "(0::int) \<le> 12 \<and> (0::int) < 16 \<and> int (length short_frame) < 12 + 16
   \<and> key demo_session = None
   \<and> decrypt_combined demo_aead short_frame 12 16 None demo_session =
       (Inl NoKeySet, demo_session)
   \<and> key keyed_session = Some demo_key
   \<and> decrypt_combined demo_aead short_frame 12 16 None keyed_session =
       (gcm_decrypt demo_aead demo_key (take 12 short_frame) (drop 11 short_frame) None [],
        keyed_session)"
proof -
  have h: "(0::int) \<le> 12" "(0::int) < 16" "int (length short_frame) < 12 + 16"
    by (simp_all add: short_frame_def)
  have a: "authenticated None = None"
    by (simp add: authenticated_def truthy_def)
  have len: "length short_frame = 27"
    by (simp add: short_frame_def)
  from decrypt_combined_short_frame [OF h, of demo_aead None demo_session] demo_session_no_key
  have r1: "decrypt_combined demo_aead short_frame 12 16 None demo_session =
              (Inl NoKeySet, demo_session)"
    by blast
  from decrypt_combined_short_frame [OF h, of demo_aead None keyed_session] keyed_session_key
  have r2: "decrypt_combined demo_aead short_frame 12 16 None keyed_session =
              (gcm_decrypt demo_aead demo_key (take (nat 12) short_frame)
                 (drop (length short_frame - nat 16) short_frame) (authenticated None) [],
               keyed_session)"
    by blast
  have r2': "decrypt_combined demo_aead short_frame 12 16 None keyed_session =
              (gcm_decrypt demo_aead demo_key (take 12 short_frame) (drop 11 short_frame) None [],
               keyed_session)"
    unfolding r2 by (simp add: len a)
  from h r1 r2' demo_session_no_key keyed_session_key show ?thesis
    by blast
qed

text \<open>
  The claim as stated fails: a frame of 27 bytes is not refused for its length. On the
  fresh session the call raises the no-key error. On the session with \<open>demo_key\<close> it
  reaches the cipher with the first 12 bytes as the nonce, the last 16 bytes as the tag
  and an empty ciphertext, and the cipher refuses the tag: the failure is the
  authentication failure \<open>InvalidTag\<close>. (The stand-in cipher answers here as AES-GCM
  does, whose tag for this key and nonce is \<open>a6369b78a56f77521573404160f95c1f\<close>, not
  sixteen bytes \<open>05\<close>.)
\<close>

theorem decrypt_combined_short_frame_counterexample:
  "length short_frame = 27
   \<and> fst (decrypt_combined demo_aead short_frame 12 16 None demo_session) = Inl NoKeySet
   \<and> fst (decrypt_combined demo_aead short_frame 12 16 None keyed_session) = Inl InvalidTag"
  by code_simp

section \<open>The counter in the nonce\<close>

lemma length_pack_be32: "length (pack_be32 v) = 4"
  by (simp add: pack_be32_def)

lemma be32_digits:
  fixes v :: int
  shows "16777216 * (v div 16777216) + 65536 * (v div 65536 mod 256)
           + 256 * (v div 256 mod 256) + v mod 256 = v"
proof -
  have a: "v div 65536 = v div 256 div 256" and b: "v div 16777216 = v div 256 div 256 div 256"
    by (simp_all add: div_mult2_eq [symmetric])
  have 1: "v = 256 * (v div 256) + v mod 256" by simp
  have 2: "v div 256 = 256 * (v div 256 div 256) + v div 256 mod 256" by simp
  have 3: "v div 256 div 256 = 256 * (v div 256 div 256 div 256) + v div 256 div 256 mod 256"
    by simp
  show ?thesis unfolding a b using 1 2 3 by linarith
qed

lemma unpack_pack_be32:
  assumes "0 \<le> v" and "v < 4294967296"
  shows "unpack_be32 (pack_be32 v) = v"
proof -
  have "v div 16777216 < 256" using assms by simp
  moreover have "0 \<le> v div 16777216" using assms by simp
  ultimately have top: "v div 16777216 mod 256 = v div 16777216" by simp
  have "unpack_be32 (pack_be32 v) =
          16777216 * (v div 16777216 mod 256) + 65536 * (v div 65536 mod 256)
           + 256 * (v div 256 mod 256) + v mod 256"
    by (simp add: unpack_be32_def pack_be32_def uint_word_of_int take_bit_eq_mod)
  also have "\<dots> = v" unfolding top by (rule be32_digits)
  finally show ?thesis .
qed

lemma pack_be32_inject:
  assumes "0 \<le> a" "a < 4294967296" "0 \<le> b" "b < 4294967296" "pack_be32 a = pack_be32 b"
  shows "a = b"
  using assms unpack_pack_be32 by metis

section \<open>One nonce\<close>

lemma prefix_assign:
  "length buf = 12 \<Longrightarrow> length r = 8 \<Longrightarrow>
     py_slice_assign (Some 0) (Some 8) buf r = r @ drop 8 buf"
  by (simp add: py_slice_assign_def slice_bounds_def slice_index_def)

lemma init_iv_buffer_persistent:
  assumes "persistent_iv w" and "length (iv_buffer w) = 12"
  shows "init_iv_buffer w =
           w\<lparr>iv_counter := 0, iv_buffer := map (entropy w) [0..<8] @ drop 8 (iv_buffer w),
             initialized := True, entropy := (\<lambda>i. entropy w (i + 8))\<rparr>"
  using assms by (simp add: init_iv_buffer_def urandom_def prefix_assign)

lemma generate_iv_next:
  assumes "persistent_iv w" and "initialized w" and "length (iv_buffer w) = 12"
    and "0 \<le> iv_counter w" and "iv_counter w < max_iv_counter w"
    and "max_iv_counter w = 4294967295"
  shows "generate_iv w =
           (Inr (take 8 (iv_buffer w) @ pack_be32 (iv_counter w + 1)),
            w\<lparr>iv_counter := iv_counter w + 1,
              iv_buffer := take 8 (iv_buffer w) @ pack_be32 (iv_counter w + 1)\<rparr>)"
  using assms by (simp add: generate_iv_def pack_into_I_def Let_def)

lemma generate_iv_reinit:
  assumes "persistent_iv w" and "length (iv_buffer w) = 12"
    and "max_iv_counter w = 4294967295"
    and "\<not> initialized w \<or> max_iv_counter w \<le> iv_counter w"
  shows "generate_iv w =
           (Inr (map (entropy w) [0..<8] @ pack_be32 1),
            w\<lparr>iv_counter := 1, iv_buffer := map (entropy w) [0..<8] @ pack_be32 1,
              initialized := True, entropy := (\<lambda>i. entropy w (i + 8))\<rparr>)"
proof -
  let ?w1 = "init_iv_buffer w"
  have i: "?w1 = w\<lparr>iv_counter := 0, iv_buffer := map (entropy w) [0..<8] @ drop 8 (iv_buffer w),
             initialized := True, entropy := (\<lambda>i. entropy w (i + 8))\<rparr>"
    using assms by (simp add: init_iv_buffer_persistent)
  show ?thesis
  proof (cases "initialized w")
    case False
    then show ?thesis
      using assms(1-3) by (simp add: generate_iv_def i pack_into_I_def Let_def)
  next
    case True
    with assms(4) have "max_iv_counter w \<le> iv_counter w" by simp
    with True show ?thesis
      using assms(1-3) by (simp add: generate_iv_def i pack_into_I_def Let_def)
  qed
qed

lemma length_prefix_at: "length (prefix_at e j) = 8"
  by (simp add: prefix_at_def)

section \<open>Nonces in a row\<close>

text \<open>
  The first nonce of a fresh persistent session, and each one after: the session after
  nonce \<open>i\<close> produces nonce \<open>i + 1\<close>, with the same prefix and the next counter value
  until the counter is at its limit, and then with the next prefix and the counter 1.
\<close>

lemma generate_iv_fresh:
  assumes "fresh_persistent w"
  shows "generate_iv w = (Inr (nonce_at (entropy w) 0), after_nonce w 0)"
proof -
  from assms have "generate_iv w =
           (Inr (map (entropy w) [0..<8] @ pack_be32 1),
            w\<lparr>iv_counter := 1, iv_buffer := map (entropy w) [0..<8] @ pack_be32 1,
              initialized := True, entropy := (\<lambda>i. entropy w (i + 8))\<rparr>)"
    by (intro generate_iv_reinit) (simp_all add: fresh_persistent_def)
  then show ?thesis
    by (simp add: nonce_at_def prefix_at_def after_nonce_def)
qed

lemma generate_iv_after_nonce:
  assumes "fresh_persistent w"
  shows "generate_iv (after_nonce w i) = (Inr (nonce_at (entropy w) (Suc i)), after_nonce w (Suc i))"
proof (cases "Suc (i mod 4294967295) = 4294967295")
  case False
  then have lt: "i mod 4294967295 < 4294967294"
    using mod_less_divisor [of 4294967295 i] by linarith
  have m: "Suc i mod 4294967295 = Suc (i mod 4294967295)"
    and d: "Suc i div 4294967295 = i div 4294967295"
    using False by (simp_all add: mod_Suc div_Suc)
  let ?v = "after_nonce w i"
  have "generate_iv ?v =
           (Inr (take 8 (iv_buffer ?v) @ pack_be32 (iv_counter ?v + 1)),
            ?v\<lparr>iv_counter := iv_counter ?v + 1,
              iv_buffer := take 8 (iv_buffer ?v) @ pack_be32 (iv_counter ?v + 1)\<rparr>)"
    using assms lt
    by (intro generate_iv_next)
       (simp_all add: after_nonce_def fresh_persistent_def nonce_at_def length_prefix_at
          length_pack_be32)
  then show ?thesis
    by (simp add: after_nonce_def nonce_at_def length_prefix_at m d)
next
  case True
  then have m: "Suc i mod 4294967295 = 0"
    and d: "Suc i div 4294967295 = Suc (i div 4294967295)"
    by (simp_all add: mod_Suc div_Suc)
  let ?v = "after_nonce w i"
  have "generate_iv ?v =
           (Inr (map (entropy ?v) [0..<8] @ pack_be32 1),
            ?v\<lparr>iv_counter := 1, iv_buffer := map (entropy ?v) [0..<8] @ pack_be32 1,
              initialized := True, entropy := (\<lambda>i. entropy ?v (i + 8))\<rparr>)"
    using assms True
    by (intro generate_iv_reinit)
       (simp_all add: after_nonce_def fresh_persistent_def nonce_at_def length_prefix_at
          length_pack_be32)
  then show ?thesis
    by (simp add: after_nonce_def nonce_at_def prefix_at_def m d add.assoc)
qed

lemma generate_ivs_after_nonce:
  assumes "fresh_persistent w"
  shows "fst (generate_ivs n (after_nonce w i)) =
           map (\<lambda>k. Inr (nonce_at (entropy w) k)) [Suc i..<Suc i + n]"
proof (induction n arbitrary: i)
  case 0
  show ?case by simp
next
  case (Suc n)
  have "fst (generate_ivs (Suc n) (after_nonce w i)) =
          Inr (nonce_at (entropy w) (Suc i)) # fst (generate_ivs n (after_nonce w (Suc i)))"
    by (simp add: generate_iv_after_nonce [OF assms] split: prod.splits)
  also have "\<dots> = Inr (nonce_at (entropy w) (Suc i))
                   # map (\<lambda>k. Inr (nonce_at (entropy w) k)) [Suc (Suc i)..<Suc (Suc i) + n]"
    by (simp only: Suc.IH)
  also have "\<dots> = map (\<lambda>k. Inr (nonce_at (entropy w) k)) [Suc i..<Suc i + Suc n]"
  proof -
    have "[Suc i..<Suc i + Suc n] = Suc i # [Suc (Suc i)..<Suc (Suc i) + n]"
      using upt_conv_Cons [of "Suc i" "Suc i + Suc n"] by simp
    then show ?thesis by (simp only: list.map)
  qed
  finally show ?case .
qed

lemma generate_ivs_fresh:
  assumes "fresh_persistent w"
  shows "fst (generate_ivs n w) = map (\<lambda>k. Inr (nonce_at (entropy w) k)) [0..<n]"
proof (cases n)
  case 0
  then show ?thesis by simp
next
  case (Suc m)
  have "fst (generate_ivs (Suc m) w) =
          Inr (nonce_at (entropy w) 0) # fst (generate_ivs m (after_nonce w 0))"
    by (simp add: generate_iv_fresh [OF assms] split: prod.splits)
  also have "\<dots> = Inr (nonce_at (entropy w) 0)
                   # map (\<lambda>k. Inr (nonce_at (entropy w) k)) [Suc 0..<Suc 0 + m]"
    by (simp only: generate_ivs_after_nonce [OF assms])
  also have "\<dots> = map (\<lambda>k. Inr (nonce_at (entropy w) k)) [0..<Suc m]"
  proof -
    have "[0..<Suc m] = 0 # [Suc 0..<Suc 0 + m]"
      using upt_conv_Cons [of 0 "Suc m"] by simp
    then show ?thesis by (simp only: list.map)
  qed
  finally show ?thesis using Suc by simp
qed

section \<open>Every reachable session keeps the nonce state in range\<close>

lemma generate_iv_persistent_cases:
  assumes "persistent_iv w" and "nonce_state_ok w"
  shows "generate_iv w =
           (if initialized w \<and> iv_counter w < max_iv_counter w
            then (Inr (take 8 (iv_buffer w) @ pack_be32 (iv_counter w + 1)),
                  w\<lparr>iv_counter := iv_counter w + 1,
                    iv_buffer := take 8 (iv_buffer w) @ pack_be32 (iv_counter w + 1)\<rparr>)
            else (Inr (map (entropy w) [0..<8] @ pack_be32 1),
                  w\<lparr>iv_counter := 1, iv_buffer := map (entropy w) [0..<8] @ pack_be32 1,
                    initialized := True, entropy := (\<lambda>i. entropy w (i + 8))\<rparr>))"
proof (cases "initialized w \<and> iv_counter w < max_iv_counter w")
  case True
  with assms show ?thesis
    using generate_iv_next [of w] by (simp add: nonce_state_ok_def)
next
  case False
  with assms show ?thesis
    using generate_iv_reinit [of w] by (auto simp: nonce_state_ok_def)
qed

lemma session_ok_init: "session_ok (init ksize True e)"
  by (simp add: session_ok_def nonce_state_ok_def init_def)

lemma session_ok_generate_iv:
  assumes "session_ok w"
  shows "session_ok (snd (generate_iv w))"
  using assms
  by (simp add: session_ok_def generate_iv_persistent_cases)
     (auto simp: nonce_state_ok_def length_pack_be32)

lemma generate_key_cases:
  "generate_key w =
     (case urandom_refuses (key_bytes w) of
        Some e \<Rightarrow> (Inl e, w)
      | None \<Rightarrow>
          (Inr (map (entropy w) [0..<nat (key_bytes w)]),
           w\<lparr>key := Some (map (entropy w) [0..<nat (key_bytes w)]),
             entropy := (\<lambda>i. entropy w (i + nat (key_bytes w)))\<rparr>))"
  by (simp add: generate_key_def urandom_def split: option.splits)

lemma session_ok_generate_key: "session_ok w \<Longrightarrow> session_ok (snd (generate_key w))"
  by (simp add: generate_key_cases session_ok_def nonce_state_ok_def split: option.splits)

lemma session_ok_set_key: "session_ok w \<Longrightarrow> session_ok (snd (set_key k w))"
  by (simp add: set_key_def session_ok_def nonce_state_ok_def)

lemma snd_encrypt: "snd (encrypt eng p a w) = snd (encrypt_key_iv w)"
  by (simp add: encrypt_def split: prod.splits sum.splits)

lemma snd_encrypt_key_iv:
  "snd (encrypt_key_iv w) =
     (case key w of
        None \<Rightarrow>
          (case urandom_refuses (key_bytes w) of
             Some e \<Rightarrow> w
           | None \<Rightarrow> snd (generate_iv (snd (generate_key w))))
      | Some k \<Rightarrow> snd (generate_iv w))"
  by (auto simp: encrypt_key_iv_def generate_key_cases split: prod.splits sum.splits option.splits)

lemma session_ok_encrypt:
  assumes "session_ok w"
  shows "session_ok (snd (encrypt eng p a w))"
  using assms
  by (simp add: snd_encrypt snd_encrypt_key_iv session_ok_generate_iv session_ok_generate_key
        split: option.splits)

lemma snd_decrypt: "snd (decrypt eng iv c t a w) = w"
  by (simp add: decrypt_def split: option.splits)

lemma snd_encrypt_combined: "snd (encrypt_combined eng p a w) = snd (encrypt eng p a w)"
  by (simp add: encrypt_combined_def Let_def split: prod.splits sum.splits)

lemma snd_decrypt_combined: "snd (decrypt_combined eng f n m a w) = w"
  by (simp add: decrypt_combined_def snd_decrypt)

lemma session_ok_call:
  assumes "session_ok w"
  shows "session_ok (call_method eng c w)"
  using assms
  by (cases c)
     (simp_all add: session_ok_generate_key session_ok_set_key session_ok_generate_iv
        session_ok_encrypt snd_decrypt snd_encrypt_combined snd_decrypt_combined)

lemma session_ok_run:
  assumes "session_ok w"
  shows "session_ok (run eng cs w)"
  using assms by (induction cs arbitrary: w) (simp_all add: session_ok_call)

lemma session_ok_reachable: "session_ok (run eng calls (init ksize True e))"
  by (rule session_ok_run) (rule session_ok_init)

text \<open>
  C8. Take a persistent-nonce session after any sequence of calls of its methods since
  \<open>__init__\<close>. The next \<open>generate_iv\<close> returns a nonce (never an error): 12 bytes
  whose last four are the big-endian counter, and that counter lies in \<open>1 .. 2^32 - 1\<close>.
  While the counter is below the limit the nonce keeps the prefix and carries the counter
  plus one. When the counter has reached the limit, the call is the same as on the
  reinitialised session: \<open>_init_iv_buffer\<close> draws eight new random bytes as the prefix
  and sets the counter to 0, and the nonce returned carries the new prefix and counter 1.
\<close>

theorem persistent_counter_range:
  fixes eng calls ksize e
  defines "w \<equiv> run eng calls (init ksize True e)"
  shows "\<exists>iv w'. generate_iv w = (Inr iv, w')
           \<and> length iv = 12
           \<and> drop 8 iv = pack_be32 (iv_counter w')
           \<and> unpack_be32 (drop 8 iv) = iv_counter w'
           \<and> 1 \<le> iv_counter w' \<and> iv_counter w' \<le> 2 ^ 32 - 1
           \<and> (initialized w \<and> iv_counter w < max_iv_counter w \<longrightarrow>
                iv_counter w' = iv_counter w + 1 \<and> take 8 iv = take 8 (iv_buffer w))
           \<and> (initialized w \<and> max_iv_counter w \<le> iv_counter w \<longrightarrow>
                generate_iv w = generate_iv (init_iv_buffer w)
                \<and> iv_counter (init_iv_buffer w) = 0
                \<and> take 8 (iv_buffer (init_iv_buffer w)) = map (entropy w) [0..<8]
                \<and> take 8 iv = map (entropy w) [0..<8]
                \<and> iv_counter w' = 1)"
proof -
  have ok: "session_ok w"
    unfolding w_def by (rule session_ok_reachable)
  then have p: "persistent_iv w" and n: "nonce_state_ok w"
    by (simp_all add: session_ok_def)
  show ?thesis
  proof (cases "initialized w \<and> iv_counter w < max_iv_counter w")
    case True
    let ?c = "iv_counter w + 1"
    let ?iv = "take 8 (iv_buffer w) @ pack_be32 ?c"
    have g: "generate_iv w = (Inr ?iv, w\<lparr>iv_counter := ?c, iv_buffer := ?iv\<rparr>)"
      using True by (simp add: generate_iv_persistent_cases [OF p n])
    have r: "0 \<le> ?c" "?c < 4294967296"
      using True n by (simp_all add: nonce_state_ok_def)
    have l: "length (take 8 (iv_buffer w)) = 8"
      using n by (simp add: nonce_state_ok_def)
    from g True n l unpack_pack_be32 [OF r] show ?thesis
      by (simp add: nonce_state_ok_def length_pack_be32)
  next
    case False
    let ?pre = "map (entropy w) [0..<8]"
    let ?iv = "?pre @ pack_be32 1"
    have g: "generate_iv w =
               (Inr ?iv, w\<lparr>iv_counter := 1, iv_buffer := ?iv, initialized := True,
                           entropy := (\<lambda>i. entropy w (i + 8))\<rparr>)"
      by (subst generate_iv_persistent_cases [OF p n]) (simp only: False if_False)
    have u: "unpack_be32 (pack_be32 1) = 1"
      by (rule unpack_pack_be32) simp_all
    have i: "init_iv_buffer w =
               w\<lparr>iv_counter := 0, iv_buffer := ?pre @ drop 8 (iv_buffer w),
                 initialized := True, entropy := (\<lambda>i. entropy w (i + 8))\<rparr>"
      using p n by (simp add: init_iv_buffer_persistent nonce_state_ok_def)
    have gi: "generate_iv (init_iv_buffer w) = generate_iv w"
    proof -
      let ?v = "init_iv_buffer w"
      have "generate_iv ?v =
              (Inr (take 8 (iv_buffer ?v) @ pack_be32 (iv_counter ?v + 1)),
               ?v\<lparr>iv_counter := iv_counter ?v + 1,
                 iv_buffer := take 8 (iv_buffer ?v) @ pack_be32 (iv_counter ?v + 1)\<rparr>)"
        using p n by (intro generate_iv_next) (simp_all add: i nonce_state_ok_def)
      then show ?thesis by (simp add: i g)
    qed
    from g False u i gi show ?thesis
      by (auto simp: length_pack_be32)
  qed
qed

lemma fresh_persistent_init: "fresh_persistent (init ksize True e)"
  by (simp add: fresh_persistent_def init_def)

lemma nonce_at_first_epoch:
  assumes "k < 4294967295"
  shows "nonce_at e k = map e [0..<8] @ pack_be32 (int k + 1)"
  using assms by (simp add: nonce_at_def prefix_at_def)

lemma nonce_at_inject:
  assumes "nonce_at e a = nonce_at e b"
  shows "prefix_at e (a div 4294967295) = prefix_at e (b div 4294967295)
         \<and> a mod 4294967295 = b mod 4294967295"
proof -
  from assms have p: "prefix_at e (a div 4294967295) = prefix_at e (b div 4294967295)"
    and c: "pack_be32 (int (a mod 4294967295) + 1) = pack_be32 (int (b mod 4294967295) + 1)"
    by (simp_all add: nonce_at_def length_prefix_at)
  have "int (a mod 4294967295) + 1 = int (b mod 4294967295) + 1"
  proof (rule pack_be32_inject [OF _ _ _ _ c])
    show "int (a mod 4294967295) + 1 < 4294967296"
      using mod_less_divisor [of 4294967295 a] by linarith
    show "int (b mod 4294967295) + 1 < 4294967296"
      using mod_less_divisor [of 4294967295 b] by linarith
  qed simp_all
  with p show ?thesis by simp
qed

text \<open>
  C2. On a fresh persistent-nonce session, \<open>N < 2^32\<close> calls of \<open>generate_iv\<close> in a row
  all return a nonce; nonce number \<open>i\<close> (from 0) is the first eight random bytes followed by
  the four big-endian bytes of \<open>i + 1\<close>, so all share the prefix, and the \<open>N\<close> nonces are
  pairwise distinct.
\<close>

theorem persistent_nonces_distinct:
  assumes "fresh_persistent w" and "N < 4294967296"
  shows "fst (generate_ivs N w) =
           map (\<lambda>i. Inr (map (entropy w) [0..<8] @ pack_be32 (int i + 1))) [0..<N]
         \<and> distinct (fst (generate_ivs N w))"
proof -
  let ?f = "\<lambda>i. Inr (map (entropy w) [0..<8] @ pack_be32 (int i + 1)) :: error + bytes"
  have "fst (generate_ivs N w) = map (\<lambda>k. Inr (nonce_at (entropy w) k)) [0..<N]"
    by (rule generate_ivs_fresh [OF assms(1)])
  also have "\<dots> = map ?f [0..<N]"
    using assms(2) by (intro map_cong refl) (simp add: nonce_at_first_epoch)
  finally have eq: "fst (generate_ivs N w) = map ?f [0..<N]" .
  have "inj_on ?f (set [0..<N])"
  proof (rule inj_onI)
    fix a b assume a: "a \<in> set [0..<N]" and b: "b \<in> set [0..<N]" and "?f a = ?f b"
    then have "pack_be32 (int a + 1) = pack_be32 (int b + 1)" by simp
    moreover have "int a + 1 < 4294967296" "int b + 1 < 4294967296"
      using a b assms(2) by simp_all
    ultimately have "int a + 1 = int b + 1"
      by (intro pack_be32_inject) simp_all
    then show "a = b" by simp
  qed
  then have "distinct (map ?f [0..<N])"
    by (simp add: distinct_map)
  with eq show ?thesis by simp
qed

section \<open>The session at the limit of its counter\<close>

lemma run_generate_ivs: "run eng (replicate n GenerateIv) w = snd (generate_ivs n w)"
  by (induction n arbitrary: w) (simp_all split: prod.splits)

lemma snd_generate_ivs_Suc:
  "snd (generate_ivs (Suc n) w) = snd (generate_ivs n (snd (generate_iv w)))"
  by (simp add: case_prod_beta)

lemma snd_generate_ivs_after_nonce:
  assumes "fresh_persistent w"
  shows "snd (generate_ivs n (after_nonce w i)) = after_nonce w (i + n)"
proof (induction n arbitrary: i)
  case 0
  show ?case by simp
next
  case (Suc n)
  show ?case
    by (simp only: snd_generate_ivs_Suc generate_iv_after_nonce [OF assms] snd_conv Suc.IH
          add_Suc add_Suc_right)
qed

lemma snd_generate_ivs_fresh:
  assumes "fresh_persistent w"
  shows "snd (generate_ivs (Suc n) w) = after_nonce w n"
  by (simp only: snd_generate_ivs_Suc generate_iv_fresh [OF assms] snd_conv
        snd_generate_ivs_after_nonce [OF assms] add_0)

lemma fresh_persistent_demo: "fresh_persistent demo_session"
  unfolding demo_session_def by (rule fresh_persistent_init)

lemma exhausted_session_eq: "exhausted_session = after_nonce demo_session 4294967294"
proof -
  have "(4294967295 :: nat) = Suc 4294967294" by simp
  then have "exhausted_session = snd (generate_ivs (Suc 4294967294) demo_session)"
    unfolding exhausted_session_def run_generate_ivs by (rule arg_cong)
  then show ?thesis
    by (simp only: snd_generate_ivs_fresh [OF fresh_persistent_demo])
qed

lemma exhausted_session_state:
  "initialized exhausted_session" "iv_counter exhausted_session = 4294967295"
  "max_iv_counter exhausted_session = 4294967295"
  "entropy exhausted_session = (\<lambda>k. demo_entropy (k + 8))"
  by (simp_all add: exhausted_session_eq after_nonce_def demo_session_def init_def)

lemma second_prefix:
  "map (\<lambda>k. demo_entropy (k + 8)) [0..<8] @ pack_be32 1 = [8, 9, 10, 11, 12, 13, 14, 15, 0, 0, 0, 1]"
  by code_simp

theorem persistent_counter_range_witness:
  "initialized exhausted_session
   \<and> iv_counter exhausted_session = 4294967295
   \<and> max_iv_counter exhausted_session = 4294967295
   \<and> fst (generate_iv exhausted_session) = Inr [8, 9, 10, 11, 12, 13, 14, 15, 0, 0, 0, 1]
   \<and> iv_counter (snd (generate_iv exhausted_session)) = 1"
proof -
  from persistent_counter_range [of demo_aead "replicate 4294967295 GenerateIv" 128 demo_entropy]
  obtain iv w' where g: "generate_iv exhausted_session = (Inr iv, w')"
    and d: "drop 8 iv = pack_be32 (iv_counter w')"
    and x: "initialized exhausted_session
              \<and> max_iv_counter exhausted_session \<le> iv_counter exhausted_session \<longrightarrow>
            take 8 iv = map (entropy exhausted_session) [0..<8] \<and> iv_counter w' = 1"
    unfolding exhausted_session_def demo_session_def by blast
  from x exhausted_session_state
  have t: "take 8 iv = map (\<lambda>k. demo_entropy (k + 8)) [0..<8]" and c: "iv_counter w' = 1"
    by simp_all
  have "iv = take 8 iv @ drop 8 iv" by simp
  also have "\<dots> = [8, 9, 10, 11, 12, 13, 14, 15, 0, 0, 0, 1]"
    unfolding t d c by (rule second_prefix)
  finally have "iv = [8, 9, 10, 11, 12, 13, 14, 15, 0, 0, 0, 1]" .
  with g c exhausted_session_state show ?thesis by simp
qed

lemma demo_three_nonces:
  "fst (generate_ivs 3 demo_session) =
     [Inr [0, 1, 2, 3, 4, 5, 6, 7, 0, 0, 0, 1], Inr [0, 1, 2, 3, 4, 5, 6, 7, 0, 0, 0, 2],
      Inr [0, 1, 2, 3, 4, 5, 6, 7, 0, 0, 0, 3]]"
  by code_simp

theorem persistent_nonces_distinct_witness:
  "fresh_persistent demo_session \<and> (3::nat) < 4294967296
   \<and> fst (generate_ivs 3 demo_session) =
       [Inr [0, 1, 2, 3, 4, 5, 6, 7, 0, 0, 0, 1], Inr [0, 1, 2, 3, 4, 5, 6, 7, 0, 0, 0, 2],
        Inr [0, 1, 2, 3, 4, 5, 6, 7, 0, 0, 0, 3]]
   \<and> distinct (fst (generate_ivs 3 demo_session))"
proof -
  have n: "(3::nat) < 4294967296" by simp
  from persistent_nonces_distinct [OF fresh_persistent_demo n]
  have "distinct (fst (generate_ivs 3 demo_session))" by blast
  with fresh_persistent_demo n demo_three_nonces show ?thesis by blast
qed

section \<open>Every reachable session, under either strategy\<close>

lemma generate_iv_random:
  assumes "\<not> persistent_iv w"
  shows "generate_iv w =
           (Inr (map (entropy w) [0..<12]),
            w\<lparr>iv_buffer := map (entropy w) [0..<12], initialized := True,
              entropy := (\<lambda>i. entropy w (i + 12))\<rparr>)"
proof -
  have a: "py_slice_assign None None buf r = r" for buf r :: bytes
    by (simp add: py_slice_assign_def slice_bounds_def)
  show ?thesis
  proof (cases "initialized w")
    case True
    then have "w\<lparr>initialized := True\<rparr> = w" by simp
    with True assms show ?thesis
      by (simp add: generate_iv_def urandom_def a Let_def)
  next
    case False
    with assms show ?thesis
      by (simp add: generate_iv_def init_iv_buffer_def urandom_def a Let_def)
  qed
qed

text \<open>
  On every session that the methods can produce, under either strategy, the nonce state
  is in range and \<open>generate_iv\<close> returns twelve bytes. So \<open>encrypt\<close> on a session with
  a key always reaches the cipher, and returns the triple whenever the cipher returns.
\<close>

lemma generate_iv_returns:
  assumes "nonce_state_ok w"
  shows "\<exists>iv. fst (generate_iv w) = Inr iv \<and> length iv = 12"
    and "nonce_state_ok (snd (generate_iv w))"
proof -
  show "\<exists>iv. fst (generate_iv w) = Inr iv \<and> length iv = 12"
  proof (cases "persistent_iv w")
    case True
    from assms show ?thesis
      by (simp add: generate_iv_persistent_cases [OF True assms] nonce_state_ok_def
            length_pack_be32)
  next
    case False
    then show ?thesis by (simp add: generate_iv_random)
  qed
  show "nonce_state_ok (snd (generate_iv w))"
  proof (cases "persistent_iv w")
    case True
    with assms have "session_ok (snd (generate_iv w))"
      by (intro session_ok_generate_iv) (simp add: session_ok_def)
    then show ?thesis by (simp add: session_ok_def)
  next
    case False
    with assms show ?thesis
      by (simp add: generate_iv_random nonce_state_ok_def)
  qed
qed

lemma nonce_state_ok_call:
  assumes "nonce_state_ok w"
  shows "nonce_state_ok (call_method eng c w)"
proof -
  have k: "nonce_state_ok (snd (generate_key w))"
    using assms by (simp add: generate_key_cases nonce_state_ok_def split: option.splits)
  have s: "nonce_state_ok (snd (set_key x w))" for x
    using assms by (simp add: set_key_def nonce_state_ok_def)
  have e: "nonce_state_ok (snd (encrypt eng p a w))" for p a
    using assms k generate_iv_returns(2)
    by (simp add: snd_encrypt snd_encrypt_key_iv split: option.splits)
  show ?thesis
    using assms k s e
    by (cases c)
       (simp_all add: generate_iv_returns(2) snd_decrypt snd_encrypt_combined
          snd_decrypt_combined)
qed

lemma nonce_state_ok_run:
  assumes "nonce_state_ok w"
  shows "nonce_state_ok (run eng cs w)"
  using assms by (induction cs arbitrary: w) (simp_all add: nonce_state_ok_call)

lemma nonce_state_ok_init: "nonce_state_ok (init ksize pers e)"
  by (simp add: nonce_state_ok_def init_def)

lemma encrypt_reaches_cipher:
  assumes "w = run eng' calls (init ksize pers e)" and "key w = Some k"
  shows "\<exists>iv w'. length iv = 12
           \<and> encrypt eng p aad w =
               (case gcm_encrypt eng k iv (authenticated aad) p of
                  Inl err \<Rightarrow> (Inl err, w')
                | Inr (c, t) \<Rightarrow> (Inr (iv, c, t), w'))"
proof -
  have "nonce_state_ok w"
    unfolding assms(1) by (intro nonce_state_ok_run nonce_state_ok_init)
  from generate_iv_returns(1) [OF this]
  obtain iv where g: "fst (generate_iv w) = Inr iv" and l: "length iv = 12" by blast
  from g obtain w' where gw: "generate_iv w = (Inr iv, w')"
    by (cases "generate_iv w") simp
  with assms(2) have "encrypt_key_iv w = (Inr (k, iv), w')"
    by (simp add: encrypt_key_iv_def)
  then have "encrypt eng p aad w =
               (case gcm_encrypt eng k iv (authenticated aad) p of
                  Inl err \<Rightarrow> (Inl err, w')
                | Inr (c, t) \<Rightarrow> (Inr (iv, c, t), w'))"
    by (simp add: encrypt_def)
  with l show ?thesis by blast
qed

section \<open>Changing the key\<close>

lemma key_change_same_nonce_state:
  assumes "w' = snd (set_key k w) \<or> w' = snd (generate_key w)"
  shows "initialized w' = initialized w" and "iv_counter w' = iv_counter w"
    and "iv_buffer w' = iv_buffer w" and "max_iv_counter w' = max_iv_counter w"
    and "persistent_iv w' = persistent_iv w"
  using assms
  by (auto simp: set_key_def generate_key_cases split: option.splits if_splits)

text \<open>
  C5, as the code has it. \<open>generate_key\<close> and \<open>set_key\<close> assign the key and nothing
  else: on every session that the methods can produce, \<open>_initialized\<close>, the counter and
  the buffer with its prefix are after the call what they were before. The next nonce
  request therefore reinitialises exactly when it would have without the key change.
  On a persistent session that has produced a nonce and whose counter is below the
  limit it does not: the nonce keeps the prefix and carries the next counter value, and
  no random bytes are drawn. On a persistent session without a nonce yet, or with the
  counter at the limit, it does: the next eight random bytes are the prefix and the
  counter is 1. On a session with random nonces the next nonce is twelve random bytes.
\<close>

theorem key_change_keeps_nonce_state:
  assumes "w = run eng calls (init ksize pers e)"
    and "w' = snd (set_key k w) \<or> w' = snd (generate_key w)"
  shows "initialized w' = initialized w \<and> iv_counter w' = iv_counter w
         \<and> iv_buffer w' = iv_buffer w
         \<and> (persistent_iv w \<and> initialized w \<and> iv_counter w < max_iv_counter w \<longrightarrow>
              generate_iv w' =
                (Inr (take 8 (iv_buffer w) @ pack_be32 (iv_counter w + 1)),
                 w'\<lparr>iv_counter := iv_counter w + 1,
                    iv_buffer := take 8 (iv_buffer w) @ pack_be32 (iv_counter w + 1)\<rparr>))
         \<and> (persistent_iv w \<and> (\<not> initialized w \<or> max_iv_counter w \<le> iv_counter w) \<longrightarrow>
              generate_iv w' =
                (Inr (map (entropy w') [0..<8] @ pack_be32 1),
                 w'\<lparr>iv_counter := 1, iv_buffer := map (entropy w') [0..<8] @ pack_be32 1,
                    initialized := True, entropy := (\<lambda>i. entropy w' (i + 8))\<rparr>))
         \<and> (\<not> persistent_iv w \<longrightarrow>
              generate_iv w' =
                (Inr (map (entropy w') [0..<12]),
                 w'\<lparr>iv_buffer := map (entropy w') [0..<12], initialized := True,
                    entropy := (\<lambda>i. entropy w' (i + 12))\<rparr>))"
proof -
  note same = key_change_same_nonce_state [OF assms(2)]
  have "nonce_state_ok w"
    unfolding assms(1) by (intro nonce_state_ok_run nonce_state_ok_init)
  then have ok: "nonce_state_ok w'"
    by (simp add: nonce_state_ok_def same)
  have below: "generate_iv w' =
                (Inr (take 8 (iv_buffer w) @ pack_be32 (iv_counter w + 1)),
                 w'\<lparr>iv_counter := iv_counter w + 1,
                    iv_buffer := take 8 (iv_buffer w) @ pack_be32 (iv_counter w + 1)\<rparr>)"
    if "persistent_iv w" "initialized w" "iv_counter w < max_iv_counter w"
  proof -
    from that have p: "persistent_iv w'" by (simp add: same)
    from that show ?thesis
      by (simp add: generate_iv_persistent_cases [OF p ok] same)
  qed
  have again: "generate_iv w' =
                (Inr (map (entropy w') [0..<8] @ pack_be32 1),
                 w'\<lparr>iv_counter := 1, iv_buffer := map (entropy w') [0..<8] @ pack_be32 1,
                    initialized := True, entropy := (\<lambda>i. entropy w' (i + 8))\<rparr>)"
    if "persistent_iv w" "\<not> initialized w \<or> max_iv_counter w \<le> iv_counter w"
  proof -
    from that have p: "persistent_iv w'" by (simp add: same)
    from that(2) have "\<not> (initialized w' \<and> iv_counter w' < max_iv_counter w')"
      by (auto simp: same)
    then show ?thesis
      by (subst generate_iv_persistent_cases [OF p ok]) (simp only: if_False)
  qed
  have random: "generate_iv w' =
                (Inr (map (entropy w') [0..<12]),
                 w'\<lparr>iv_buffer := map (entropy w') [0..<12], initialized := True,
                    entropy := (\<lambda>i. entropy w' (i + 12))\<rparr>)"
    if "\<not> persistent_iv w"
    using that by (intro generate_iv_random) (simp add: same)
  from same(1-3) below again random show ?thesis
    by blast
qed

lemma demo_sessions_reachable:
  "demo_session = run demo_aead [] (init 128 True demo_entropy)"
  "used_session = run demo_aead [GenerateIv] (init 128 True demo_entropy)"
  "exhausted_session = run demo_aead (replicate 4294967295 GenerateIv) (init 128 True demo_entropy)"
  "random_session = run demo_aead [] (init 128 False demo_entropy)"
  by (simp_all add: demo_session_def used_session_def exhausted_session_def random_session_def)

lemma used_session_state:
  "persistent_iv used_session" "initialized used_session"
  "iv_counter used_session < max_iv_counter used_session"
  by code_simp+

lemma used_session_next:
  "take 8 (iv_buffer used_session) @ pack_be32 (iv_counter used_session + 1) =
     [0, 1, 2, 3, 4, 5, 6, 7, 0, 0, 0, 2]"
  by code_simp

lemma demo_session_state:
  "persistent_iv demo_session" "\<not> initialized demo_session"
  "\<not> persistent_iv random_session"
  by (simp_all add: demo_session_def random_session_def init_def)

lemma demo_session_first:
  "map (entropy (snd (set_key demo_key demo_session))) [0..<8] @ pack_be32 1 =
     [0, 1, 2, 3, 4, 5, 6, 7, 0, 0, 0, 1]"
  "map (entropy (snd (set_key demo_key random_session))) [0..<12] =
     [0, 1, 2, 3, 4, 5, 6, 7, 8, 9, 10, 11]"
  by code_simp+

lemma exhausted_session_persistent: "persistent_iv exhausted_session"
  by (simp add: exhausted_session_eq after_nonce_def demo_session_def init_def)

lemma exhausted_session_rekeyed:
  "map (entropy (snd (set_key demo_key exhausted_session))) [0..<8] @ pack_be32 1 =
     [8, 9, 10, 11, 12, 13, 14, 15, 0, 0, 0, 1]"
proof -
  have "entropy (snd (set_key demo_key exhausted_session)) = entropy exhausted_session"
    by (simp add: set_key_def)
  then show ?thesis
    by (simp only: exhausted_session_state(4) second_prefix)
qed

theorem key_change_keeps_nonce_state_witness:
  "persistent_iv used_session \<and> initialized used_session
   \<and> iv_counter used_session < max_iv_counter used_session
   \<and> fst (generate_iv (snd (set_key demo_key used_session))) =
       Inr [0, 1, 2, 3, 4, 5, 6, 7, 0, 0, 0, 2]
   \<and> fst (generate_iv (snd (generate_key used_session))) =
       Inr [0, 1, 2, 3, 4, 5, 6, 7, 0, 0, 0, 2]
   \<and> persistent_iv demo_session \<and> \<not> initialized demo_session
   \<and> fst (generate_iv (snd (set_key demo_key demo_session))) =
       Inr [0, 1, 2, 3, 4, 5, 6, 7, 0, 0, 0, 1]
   \<and> persistent_iv exhausted_session \<and> initialized exhausted_session
   \<and> max_iv_counter exhausted_session \<le> iv_counter exhausted_session
   \<and> fst (generate_iv (snd (set_key demo_key exhausted_session))) =
       Inr [8, 9, 10, 11, 12, 13, 14, 15, 0, 0, 0, 1]
   \<and> \<not> persistent_iv random_session
   \<and> fst (generate_iv (snd (set_key demo_key random_session))) =
       Inr [0, 1, 2, 3, 4, 5, 6, 7, 8, 9, 10, 11]"
proof -
  have lim: "max_iv_counter exhausted_session \<le> iv_counter exhausted_session"
    by (simp add: exhausted_session_state)
  from key_change_keeps_nonce_state [OF demo_sessions_reachable(2),
         of "snd (set_key demo_key used_session)" demo_key] used_session_state
  have 1: "fst (generate_iv (snd (set_key demo_key used_session))) =
             Inr (take 8 (iv_buffer used_session) @ pack_be32 (iv_counter used_session + 1))"
    by simp
  from key_change_keeps_nonce_state [OF demo_sessions_reachable(2),
         of "snd (generate_key used_session)" demo_key] used_session_state
  have 2: "fst (generate_iv (snd (generate_key used_session))) =
             Inr (take 8 (iv_buffer used_session) @ pack_be32 (iv_counter used_session + 1))"
    by simp
  from key_change_keeps_nonce_state [OF demo_sessions_reachable(1),
         of "snd (set_key demo_key demo_session)" demo_key] demo_session_state
  have 3: "fst (generate_iv (snd (set_key demo_key demo_session))) =
             Inr (map (entropy (snd (set_key demo_key demo_session))) [0..<8] @ pack_be32 1)"
    by simp
  from key_change_keeps_nonce_state [OF demo_sessions_reachable(3),
         of "snd (set_key demo_key exhausted_session)" demo_key]
       exhausted_session_persistent lim
  have 4: "fst (generate_iv (snd (set_key demo_key exhausted_session))) =
             Inr (map (entropy (snd (set_key demo_key exhausted_session))) [0..<8] @ pack_be32 1)"
    by simp
  from key_change_keeps_nonce_state [OF demo_sessions_reachable(4),
         of "snd (set_key demo_key random_session)" demo_key] demo_session_state
  have 5: "fst (generate_iv (snd (set_key demo_key random_session))) =
             Inr (map (entropy (snd (set_key demo_key random_session))) [0..<12])"
    by simp
  from used_session_state demo_session_state exhausted_session_persistent
       exhausted_session_state(1) lim
       1 [unfolded used_session_next] 2 [unfolded used_session_next]
       3 [unfolded demo_session_first] 4 [unfolded exhausted_session_rekeyed]
       5 [unfolded demo_session_first]
  show ?thesis by blast
qed

text \<open>
  The claim as stated fails: after one nonce (prefix 0..7, counter 1), a successful
  \<open>set_key\<close> or \<open>generate_key\<close> is followed by the nonce with the same prefix and
  counter 2. A reinitialisation would have drawn the prefix 8..15 and restarted at 1.
\<close>

theorem key_change_keeps_nonce_state_counterexample:
  "fst (generate_iv demo_session) = Inr [0, 1, 2, 3, 4, 5, 6, 7, 0, 0, 0, 1]
   \<and> fst (set_key demo_key used_session) = Inr ()
   \<and> fst (generate_iv (snd (set_key demo_key used_session))) =
       Inr [0, 1, 2, 3, 4, 5, 6, 7, 0, 0, 0, 2]
   \<and> fst (generate_key used_session) =
       Inr [8, 9, 10, 11, 12, 13, 14, 15, 16, 17, 18, 19, 20, 21, 22, 23]
   \<and> fst (generate_iv (snd (generate_key used_session))) =
       Inr [0, 1, 2, 3, 4, 5, 6, 7, 0, 0, 0, 2]
   \<and> fst (generate_iv (init_iv_buffer (snd (set_key demo_key used_session)))) =
       Inr [8, 9, 10, 11, 12, 13, 14, 15, 0, 0, 0, 1]"
  by code_simp

section \<open>Calls, nonces and pairs\<close>

lemma encrypt_iv_state_cases:
  "encrypt_iv_state w =
     (case key w of
        Some k \<Rightarrow> Some w
      | None \<Rightarrow> (case urandom_refuses (key_bytes w) of
                   Some e \<Rightarrow> None
                 | None \<Rightarrow> Some (snd (generate_key w))))"
  by (simp add: encrypt_iv_state_def generate_key_cases split: option.splits)

lemma encrypt_key_iv_iv_state:
  "encrypt_key_iv w =
     (case encrypt_iv_state w of
        None \<Rightarrow> (fst (encrypt_key_iv w), w)
      | Some v \<Rightarrow>
          (case generate_iv v of
             (Inl e, w2) \<Rightarrow> (Inl e, w2)
           | (Inr iv, w2) \<Rightarrow> (Inr (the (key v), iv), w2)))"
  by (simp add: encrypt_iv_state_cases encrypt_key_iv_def generate_key_cases
        split: option.splits prod.splits sum.splits)

lemma iv_state_None:
  assumes "iv_state c w = None"
  shows "same_nonce_state (call_method eng c w) w"
    and "call_pairs c w = []"
proof -
  have k: "same_nonce_state (snd (generate_key w)) w"
    by (simp add: same_nonce_state_def generate_key_cases split: option.splits)
  have s: "same_nonce_state (snd (set_key x w)) w" for x
    by (simp add: same_nonce_state_def set_key_def)
  have r: "same_nonce_state w w"
    by (simp add: same_nonce_state_def)
  have e: "snd (encrypt_key_iv w) = w \<and> (\<exists>err. fst (encrypt_key_iv w) = Inl err)"
    if "encrypt_iv_state w = None"
    using that
    by (auto simp: encrypt_iv_state_cases encrypt_key_iv_def generate_key_cases
          split: option.splits)
  show "same_nonce_state (call_method eng c w) w"
    using assms k s r e
    by (cases c) (auto simp: snd_encrypt snd_encrypt_combined snd_decrypt snd_decrypt_combined)
  show "call_pairs c w = []"
    using assms e by (cases c) auto
qed

lemma iv_state_Some:
  assumes "iv_state c w = Some v"
  shows "same_nonce_state v w" and "call_method eng c w = snd (generate_iv v)"
    and "set (map snd (call_pairs c w)) \<subseteq> set (call_nonces c w)"
    and "length (call_pairs c w) \<le> 1"
proof -
  have e: "same_nonce_state v w \<and> snd (encrypt_key_iv w) = snd (generate_iv v)
           \<and> set (map snd (case fst (encrypt_key_iv w) of Inl e \<Rightarrow> [] | Inr kiv \<Rightarrow> [kiv]))
               \<subseteq> set (case fst (generate_iv v) of Inl e \<Rightarrow> [] | Inr iv \<Rightarrow> [iv])"
    if "encrypt_iv_state w = Some v"
    using that
    by (auto simp: encrypt_key_iv_iv_state encrypt_iv_state_cases same_nonce_state_def
          generate_key_cases split: option.splits prod.splits sum.splits)
  show "same_nonce_state v w"
    using assms e by (cases c) (auto simp: same_nonce_state_def)
  show "call_method eng c w = snd (generate_iv v)"
    using assms e by (cases c) (auto simp: snd_encrypt snd_encrypt_combined)
  show "set (map snd (call_pairs c w)) \<subseteq> set (call_nonces c w)"
    using assms e by (cases c) (auto simp: call_nonces_def)
  show "length (call_pairs c w) \<le> 1"
    by (cases c) (auto split: sum.splits)
qed

lemma map_upt_append:
  "map f [0..<a] @ map (\<lambda>i. f (i + a)) [0..<b] = map f [0..<a + b]"
  by (rule nth_equalityI) (auto simp: nth_append simp del: upt_Suc)

text \<open>
  The draws of a nonce request are the bytes that \<open>generate_iv\<close> takes from \<open>os.urandom\<close>,
  no more and no fewer: on every session, joined together they are the first bytes of
  the stream, and the session afterwards reads on from behind them.
\<close>

lemma generate_iv_consumes:
  "concat (nonce_draw v) = map (entropy v) [0..<length (concat (nonce_draw v))]
   \<and> entropy (snd (generate_iv v)) = (\<lambda>i. entropy v (i + length (concat (nonce_draw v))))"
  using map_upt_append [of "entropy v" 8 8] map_upt_append [of "entropy v" 8 12]
  by (auto simp: nonce_draw_def init_draw_def generate_iv_def init_iv_buffer_def urandom_def
        Let_def add.assoc simp del: upt_Suc split: prod.splits sum.splits)

lemma nonce_draw_persistent:
  assumes "persistent_iv v" and "nonce_state_ok v"
  shows "nonce_draw v =
           (if initialized v \<and> iv_counter v < max_iv_counter v then []
            else [map (entropy v) [0..<8]])"
proof (cases "initialized v")
  case True
  with assms show ?thesis
    by (auto simp: nonce_draw_def init_draw_def Let_def)
next
  case False
  with assms show ?thesis
    by (simp add: nonce_draw_def init_draw_def Let_def init_iv_buffer_persistent
          nonce_state_ok_def)
qed

lemma nonce_draw_random:
  assumes "\<not> persistent_iv v"
  shows "nonce_draw v = [map (entropy v) [0..<12]]"
  using assms by (simp add: nonce_draw_def init_draw_def Let_def init_iv_buffer_def)

lemma same_nonce_state_ok:
  assumes "same_nonce_state v w"
  shows "nonce_state_ok v = nonce_state_ok w" and "prefix_in_use v = prefix_in_use w"
    and "later_nonce v ds n = later_nonce w ds n" and "persistent_iv v = persistent_iv w"
  using assms
  by (simp_all add: same_nonce_state_def nonce_state_ok_def prefix_in_use_def later_nonce_def)

lemma persistent_iv_call: "persistent_iv (call_method eng c w) = persistent_iv w"
proof (cases "iv_state c w")
  case None
  from iv_state_None(1) [OF this] show ?thesis
    by (simp add: same_nonce_state_def)
next
  case (Some v)
  have "persistent_iv (snd (generate_iv v)) = persistent_iv v"
    by (simp add: generate_iv_def init_iv_buffer_def urandom_def Let_def
          split: prod.splits sum.splits)
  with iv_state_Some(1,2) [OF Some] show ?thesis
    by (simp add: same_nonce_state_def)
qed

lemma pairs_from_nonces:
  assumes "distinct (run_nonces eng cs w)"
  shows "distinct (map snd (run_pairs eng cs w))
         \<and> set (map snd (run_pairs eng cs w)) \<subseteq> set (run_nonces eng cs w)"
  using assms
proof (induction cs arbitrary: w)
  case Nil
  show ?case by simp
next
  case (Cons c cs)
  let ?w1 = "call_method eng c w"
  from Cons.prems have d: "distinct (call_nonces c w)" "distinct (run_nonces eng cs ?w1)"
    and disj: "set (call_nonces c w) \<inter> set (run_nonces eng cs ?w1) = {}"
    by simp_all
  from Cons.IH [OF d(2)]
  have ih: "distinct (map snd (run_pairs eng cs ?w1))"
    "set (map snd (run_pairs eng cs ?w1)) \<subseteq> set (run_nonces eng cs ?w1)"
    by simp_all
  have sub: "set (map snd (call_pairs c w)) \<subseteq> set (call_nonces c w)"
    and one: "length (call_pairs c w) \<le> 1"
  proof -
    show "set (map snd (call_pairs c w)) \<subseteq> set (call_nonces c w)"
      using iv_state_None(2) [of c w] iv_state_Some(3) [of c w]
      by (cases "iv_state c w") simp_all
    show "length (call_pairs c w) \<le> 1"
      using iv_state_None(2) [of c w] iv_state_Some(4) [of c w]
      by (cases "iv_state c w") simp_all
  qed
  from one have "distinct (map snd (call_pairs c w))"
    by (cases "call_pairs c w") simp_all
  with ih sub disj show ?case
    by (auto simp: subset_iff)
qed

section \<open>Nonce reuse\<close>

text \<open>
  Under the persistent strategy every nonce that a run generates is later than the
  state it starts from: it carries the prefix in use with a greater counter, or a prefix
  drawn in the run. So the nonces of a run are pairwise distinct when the prefix in use
  and the prefixes drawn are.
\<close>

lemma later_nonce_same:
  assumes "later_nonce w ds (pre @ pack_be32 c)" and "length pre = 8"
    and "0 \<le> c" and "c \<le> 4294967295"
  shows "pre \<in> set ds \<or> (initialized w \<and> pre = take 8 (iv_buffer w) \<and> iv_counter w < c)"
proof -
  from assms(1) obtain pre' c' where eq: "pre @ pack_be32 c = pre' @ pack_be32 c'"
    and l: "length pre' = 8" and r: "1 \<le> c'" "c' \<le> 4294967295"
    and alt: "pre' \<in> set ds
              \<or> (initialized w \<and> pre' = take 8 (iv_buffer w) \<and> iv_counter w < c')"
    unfolding later_nonce_def by blast
  from eq l assms(2) have p: "pre = pre'" and "pack_be32 c = pack_be32 c'"
    by simp_all
  with assms(3,4) r have "c = c'"
    by (intro pack_be32_inject) simp_all
  with p alt show ?thesis by simp
qed

lemma later_nonce_step:
  assumes "later_nonce w1 ds1 n" and "set ds1 \<subseteq> set ds"
    and "initialized w1 \<Longrightarrow>
           take 8 (iv_buffer w1) \<in> set ds
           \<or> (initialized v \<and> take 8 (iv_buffer w1) = take 8 (iv_buffer v)
               \<and> iv_counter v \<le> iv_counter w1)"
  shows "later_nonce v ds n"
proof -
  from assms(1) obtain pre c where n: "n = pre @ pack_be32 c" and l: "length pre = 8"
    and r: "1 \<le> c" "c \<le> 4294967295"
    and alt: "pre \<in> set ds1
              \<or> (initialized w1 \<and> pre = take 8 (iv_buffer w1) \<and> iv_counter w1 < c)"
    unfolding later_nonce_def by blast
  from alt assms(2,3)
  have "pre \<in> set ds \<or> (initialized v \<and> pre = take 8 (iv_buffer v) \<and> iv_counter v < c)"
    by auto
  with n l r show ?thesis
    unfolding later_nonce_def by blast
qed

lemma persistent_nonces_later:
  assumes "persistent_iv w" and "nonce_state_ok w"
    and "distinct (prefix_in_use w @ run_draws eng cs w)"
  shows "distinct (run_nonces eng cs w)
         \<and> (\<forall>n \<in> set (run_nonces eng cs w). later_nonce w (run_draws eng cs w) n)"
  using assms
proof (induction cs arbitrary: w)
  case Nil
  show ?case by simp
next
  case (Cons c cs)
  let ?w1 = "call_method eng c w"
  let ?D1 = "run_draws eng cs ?w1"
  let ?R = "run_nonces eng cs ?w1"
  have p1: "persistent_iv ?w1"
    using Cons.prems(1) by (simp add: persistent_iv_call)
  have ok1: "nonce_state_ok ?w1"
    using Cons.prems(2) by (rule nonce_state_ok_call)
  show ?case
  proof (cases "iv_state c w")
    case None
    note same = same_nonce_state_ok [OF iv_state_None(1) [OF None, of eng]]
    have dr: "run_draws eng (c # cs) w = ?D1" and no: "run_nonces eng (c # cs) w = ?R"
      by (simp_all add: call_draws_def call_nonces_def None)
    from Cons.prems(3) have "distinct (prefix_in_use ?w1 @ ?D1)"
      by (simp only: dr same(2))
    from Cons.IH [OF p1 ok1 this] show ?thesis
      unfolding dr no by (simp add: same(3))
  next
    case (Some v)
    note sv = same_nonce_state_ok [OF iv_state_Some(1) [OF Some]]
    have w1: "?w1 = snd (generate_iv v)"
      by (rule iv_state_Some(2) [OF Some])
    have pv: "persistent_iv v" and okv: "nonce_state_ok v"
      using Cons.prems(1,2) by (simp_all add: sv)
    have lenv: "length (iv_buffer v) = 12" and cv: "0 \<le> iv_counter v"
      and mv: "max_iv_counter v = 4294967295" and cm: "iv_counter v \<le> max_iv_counter v"
      using okv by (simp_all add: nonce_state_ok_def)
    show ?thesis
    proof (cases "initialized v \<and> iv_counter v < max_iv_counter v")
      case True
      let ?cur = "take 8 (iv_buffer v)"
      let ?n0 = "?cur @ pack_be32 (iv_counter v + 1)"
      have g: "generate_iv v = (Inr ?n0, v\<lparr>iv_counter := iv_counter v + 1, iv_buffer := ?n0\<rparr>)"
        using True by (simp add: generate_iv_persistent_cases [OF pv okv])
      have lc: "length ?cur = 8" using lenv by simp
      have dr: "run_draws eng (c # cs) w = ?D1"
        using True by (simp add: call_draws_def Some nonce_draw_persistent [OF pv okv])
      have no: "run_nonces eng (c # cs) w = ?n0 # ?R"
        by (simp add: call_nonces_def Some g)
      have i1: "initialized ?w1" and c1: "iv_counter ?w1 = iv_counter v + 1"
        and b1: "take 8 (iv_buffer ?w1) = ?cur"
        using True lc by (simp_all add: w1 g)
      have pw: "prefix_in_use v = [?cur]"
        using True pv by (simp add: prefix_in_use_def)
      from Cons.prems(3) have dist: "distinct (?cur # ?D1)"
        by (simp only: dr sv(2) [symmetric] pw append_Cons append_Nil)
      then have "distinct (prefix_in_use ?w1 @ ?D1)"
        by (auto simp: prefix_in_use_def b1)
      from Cons.IH [OF p1 ok1 this]
      have dR: "distinct ?R" and lR: "\<forall>n \<in> set ?R. later_nonce ?w1 ?D1 n"
        by simp_all
      have fresh: "?n0 \<notin> set ?R"
      proof
        assume "?n0 \<in> set ?R"
        with lR have "later_nonce ?w1 ?D1 ?n0" by blast
        from later_nonce_same [OF this lc] True cv mv
        have "?cur \<in> set ?D1 \<or> iv_counter ?w1 < iv_counter v + 1"
          by auto
        with dist c1 show False by simp
      qed
      have "later_nonce v ?D1 n" if "n \<in> set (?n0 # ?R)" for n
      proof (cases "n = ?n0")
        case n0: True
        show ?thesis
          unfolding later_nonce_def n0
          using True lc cv mv
          by (intro exI [of _ ?cur] exI [of _ "iv_counter v + 1"]) simp
      next
        case False
        with that lR have "later_nonce ?w1 ?D1 n" by simp
        then show ?thesis
          by (rule later_nonce_step) (use True in \<open>simp_all add: b1 c1\<close>)
      qed
      with dR fresh show ?thesis
        by (simp only: dr no sv(3) [symmetric]) simp
    next
      case False
      let ?P = "map (entropy v) [0..<8]"
      let ?n0 = "?P @ pack_be32 1"
      have g: "generate_iv v =
                 (Inr ?n0, v\<lparr>iv_counter := 1, iv_buffer := ?n0, initialized := True,
                              entropy := (\<lambda>i. entropy v (i + 8))\<rparr>)"
        by (subst generate_iv_persistent_cases [OF pv okv]) (simp only: False if_False)
      have dr: "run_draws eng (c # cs) w = ?P # ?D1"
        using False by (simp add: call_draws_def Some nonce_draw_persistent [OF pv okv])
      have no: "run_nonces eng (c # cs) w = ?n0 # ?R"
        by (simp add: call_nonces_def Some g)
      have i1: "initialized ?w1" and c1: "iv_counter ?w1 = 1"
        and b1: "take 8 (iv_buffer ?w1) = ?P" and m1: "max_iv_counter ?w1 = 4294967295"
        using mv by (simp_all add: w1 g)
      have pw: "prefix_in_use v = []"
        using False by (simp add: prefix_in_use_def)
      from Cons.prems(3) have dist: "distinct (?P # ?D1)"
        by (simp only: dr sv(2) [symmetric] pw append_Nil)
      then have "distinct (prefix_in_use ?w1 @ ?D1)"
        by (auto simp: prefix_in_use_def b1)
      from Cons.IH [OF p1 ok1 this]
      have dR: "distinct ?R" and lR: "\<forall>n \<in> set ?R. later_nonce ?w1 ?D1 n"
        by simp_all
      have lp: "length ?P = 8" by simp
      have fresh: "?n0 \<notin> set ?R"
      proof
        assume "?n0 \<in> set ?R"
        with lR have "later_nonce ?w1 ?D1 ?n0" by blast
        from later_nonce_same [OF this lp]
        have "?P \<in> set ?D1 \<or> iv_counter ?w1 < 1"
          by auto
        with dist c1 show False by simp
      qed
      have "later_nonce v (?P # ?D1) n" if "n \<in> set (?n0 # ?R)" for n
      proof (cases "n = ?n0")
        case n0: True
        show ?thesis
          unfolding later_nonce_def n0
          by (intro exI [of _ ?P] exI [of _ 1]) simp
      next
        case False
        with that lR have "later_nonce ?w1 ?D1 n" by simp
        then show ?thesis
          by (rule later_nonce_step) (auto simp: b1)
      qed
      with dR fresh show ?thesis
        by (simp only: dr no sv(3) [symmetric]) simp
    qed
  qed
qed

lemma random_nonces_are_draws:
  assumes "\<not> persistent_iv w"
  shows "run_nonces eng cs w = run_draws eng cs w"
  using assms
proof (induction cs arbitrary: w)
  case Nil
  show ?case by simp
next
  case (Cons c cs)
  have p1: "\<not> persistent_iv (call_method eng c w)"
    using Cons.prems by (simp add: persistent_iv_call)
  have "call_nonces c w = call_draws c w"
  proof (cases "iv_state c w")
    case None
    then show ?thesis by (simp add: call_nonces_def call_draws_def)
  next
    case (Some v)
    from iv_state_Some(1) [OF Some] Cons.prems have "\<not> persistent_iv v"
      by (simp add: same_nonce_state_def)
    then show ?thesis
      by (simp add: call_nonces_def call_draws_def Some generate_iv_random nonce_draw_random)
  qed
  with Cons.IH [OF p1] show ?case by simp
qed

lemma draws_within_counter:
  assumes "persistent_iv w" and "nonce_state_ok w"
    and "iv_counter w + int (length cs) \<le> max_iv_counter w"
  shows "length (prefix_in_use w @ run_draws eng cs w) \<le> 1"
  using assms
proof (induction cs arbitrary: w)
  case Nil
  show ?case by (simp add: prefix_in_use_def)
next
  case (Cons c cs)
  let ?w1 = "call_method eng c w"
  let ?D1 = "run_draws eng cs ?w1"
  have p1: "persistent_iv ?w1"
    using Cons.prems(1) by (simp add: persistent_iv_call)
  have ok1: "nonce_state_ok ?w1"
    using Cons.prems(2) by (rule nonce_state_ok_call)
  from Cons.prems(3) have room: "iv_counter w + int (length cs) + 1 \<le> max_iv_counter w"
    by simp
  show ?case
  proof (cases "iv_state c w")
    case None
    note same = iv_state_None(1) [OF None, of eng]
    from room same have "iv_counter ?w1 + int (length cs) \<le> max_iv_counter ?w1"
      by (simp add: same_nonce_state_def)
    from Cons.IH [OF p1 ok1 this] show ?thesis
      by (simp add: call_draws_def None same_nonce_state_ok(2) [OF same])
  next
    case (Some v)
    note sv = iv_state_Some(1) [OF Some]
    have w1: "?w1 = snd (generate_iv v)"
      by (rule iv_state_Some(2) [OF Some])
    have pv: "persistent_iv v" and okv: "nonce_state_ok v"
      using Cons.prems(1,2) by (simp_all add: same_nonce_state_ok [OF sv])
    have lenv: "length (iv_buffer v) = 12" and cv: "0 \<le> iv_counter v"
      and mv: "max_iv_counter v = 4294967295"
      using okv by (simp_all add: nonce_state_ok_def)
    from room sv have roomv: "iv_counter v + int (length cs) + 1 \<le> max_iv_counter v"
      by (simp add: same_nonce_state_def)
    show ?thesis
    proof (cases "initialized v \<and> iv_counter v < max_iv_counter v")
      case True
      have g: "generate_iv v =
                 (Inr (take 8 (iv_buffer v) @ pack_be32 (iv_counter v + 1)),
                  v\<lparr>iv_counter := iv_counter v + 1,
                    iv_buffer := take 8 (iv_buffer v) @ pack_be32 (iv_counter v + 1)\<rparr>)"
        using True by (simp add: generate_iv_persistent_cases [OF pv okv])
      have dr: "run_draws eng (c # cs) w = ?D1"
        using True by (simp add: call_draws_def Some nonce_draw_persistent [OF pv okv])
      have s1: "initialized ?w1" "iv_counter ?w1 = iv_counter v + 1"
        "max_iv_counter ?w1 = max_iv_counter v"
        using True by (simp_all add: w1 g)
      from roomv s1 have "iv_counter ?w1 + int (length cs) \<le> max_iv_counter ?w1"
        by simp
      from Cons.IH [OF p1 ok1 this]
      have ih: "length (prefix_in_use ?w1 @ ?D1) \<le> 1" .
      have "?D1 = []"
      proof (cases cs)
        case Nil
        then show ?thesis by simp
      next
        case (Cons c' cs')
        with roomv s1 have "iv_counter ?w1 < max_iv_counter ?w1" by simp
        with p1 s1(1) have "length (prefix_in_use ?w1) = 1"
          by (simp add: prefix_in_use_def)
        with ih show ?thesis by simp
      qed
      then show ?thesis
        unfolding dr by (simp add: prefix_in_use_def)
    next
      case False
      with roomv cv have ni: "\<not> initialized v" by simp
      have g: "generate_iv v =
                 (Inr (map (entropy v) [0..<8] @ pack_be32 1),
                  v\<lparr>iv_counter := 1, iv_buffer := map (entropy v) [0..<8] @ pack_be32 1,
                    initialized := True, entropy := (\<lambda>i. entropy v (i + 8))\<rparr>)"
        by (subst generate_iv_persistent_cases [OF pv okv]) (simp only: False if_False)
      have dr: "run_draws eng (c # cs) w = map (entropy v) [0..<8] # ?D1"
        using False by (simp add: call_draws_def Some nonce_draw_persistent [OF pv okv])
      have s1: "initialized ?w1" "iv_counter ?w1 = 1" "max_iv_counter ?w1 = 4294967295"
        using mv by (simp_all add: w1 g)
      from roomv cv mv s1 have "iv_counter ?w1 + int (length cs) \<le> max_iv_counter ?w1"
        by simp
      from Cons.IH [OF p1 ok1 this]
      have ih: "length (prefix_in_use ?w1 @ ?D1) \<le> 1" .
      from p1 s1 have "length (prefix_in_use ?w1) = 1"
        by (simp add: prefix_in_use_def)
      with ih have "?D1 = []" by simp
      moreover from ni sv have "prefix_in_use w = []"
        by (simp add: prefix_in_use_def same_nonce_state_def)
      ultimately show ?thesis
        unfolding dr by simp
    qed
  qed
qed

text \<open>
  C1, as the code has it. Take any session that the methods can produce and any
  sequence of calls on it from there: encryptions, nonce requests, decryptions and key
  changes in any order, also across counter exhaustion and reinitialisation. If the
  random values drawn for the nonces along the way (the 8-byte prefixes under the
  persistent strategy, the prefix in use among them; the 12-byte nonces under the random
  strategy) are pairwise distinct, then the (key, nonce) pairs that \<open>encrypt\<close> and
  \<open>encrypt_combined\<close> hand to the cipher are pairwise distinct, whatever the keys: no
  pair repeats in any key's lifetime. Under the persistent strategy no pair repeats,
  whatever the random bytes, as long as the counter has room for the calls. Under the
  random strategy the nonces generated are the draws themselves, one for one.
\<close>

theorem nonce_pairs_distinct:
  assumes "w = run eng calls (init ksize pers e)"
  shows "(distinct (prefix_in_use w @ run_draws eng cs w) \<longrightarrow> distinct (run_pairs eng cs w))
         \<and> (persistent_iv w \<and> iv_counter w + int (length cs) \<le> max_iv_counter w \<longrightarrow>
              distinct (run_pairs eng cs w))
         \<and> (\<not> persistent_iv w \<longrightarrow> run_nonces eng cs w = run_draws eng cs w)"
proof -
  have ok: "nonce_state_ok w"
    unfolding assms by (intro nonce_state_ok_run nonce_state_ok_init)
  have main: "distinct (run_pairs eng cs w)"
    if d: "distinct (prefix_in_use w @ run_draws eng cs w)"
  proof -
    have "distinct (run_nonces eng cs w)"
    proof (cases "persistent_iv w")
      case True
      from persistent_nonces_later [OF True ok d] show ?thesis by blast
    next
      case False
      with d show ?thesis
        by (simp add: random_nonces_are_draws)
    qed
    then have "distinct (map snd (run_pairs eng cs w))"
      using pairs_from_nonces by blast
    then show ?thesis
      by (simp add: distinct_map)
  qed
  have "distinct (prefix_in_use w @ run_draws eng cs w)"
    if "persistent_iv w" "iv_counter w + int (length cs) \<le> max_iv_counter w"
  proof -
    from draws_within_counter [OF that(1) ok that(2)]
    have "length (prefix_in_use w @ run_draws eng cs w) \<le> 1" .
    then show ?thesis
      by (cases "prefix_in_use w @ run_draws eng cs w") (auto simp: Suc_le_eq)
  qed
  with main random_nonces_are_draws [of w eng cs] show ?thesis by blast
qed

lemma demo_run_used:
  "prefix_in_use used_session @ run_draws demo_aead demo_calls used_session =
     [[0, 1, 2, 3, 4, 5, 6, 7]]"
  "run_pairs demo_aead demo_calls used_session =
     [(replicate 16 7, [0, 1, 2, 3, 4, 5, 6, 7, 0, 0, 0, 2]),
      (replicate 16 7, [0, 1, 2, 3, 4, 5, 6, 7, 0, 0, 0, 4]),
      ([8, 9, 10, 11, 12, 13, 14, 15, 16, 17, 18, 19, 20, 21, 22, 23],
       [0, 1, 2, 3, 4, 5, 6, 7, 0, 0, 0, 5])]"
  by code_simp+

lemma demo_run_random:
  "prefix_in_use random_session @ run_draws demo_aead demo_calls random_session =
     [[0, 1, 2, 3, 4, 5, 6, 7, 8, 9, 10, 11],
      [12, 13, 14, 15, 16, 17, 18, 19, 20, 21, 22, 23],
      [24, 25, 26, 27, 28, 29, 30, 31, 32, 33, 34, 35],
      [52, 53, 54, 55, 56, 57, 58, 59, 60, 61, 62, 63]]"
  by code_simp

lemma demo_run_random_nonces:
  "run_nonces demo_aead demo_calls random_session =
     [[0, 1, 2, 3, 4, 5, 6, 7, 8, 9, 10, 11],
      [12, 13, 14, 15, 16, 17, 18, 19, 20, 21, 22, 23],
      [24, 25, 26, 27, 28, 29, 30, 31, 32, 33, 34, 35],
      [52, 53, 54, 55, 56, 57, 58, 59, 60, 61, 62, 63]]"
  "\<not> persistent_iv random_session"
  by code_simp+

lemma used_session_room:
  "iv_counter used_session + int (length demo_calls) \<le> max_iv_counter used_session"
  by code_simp

theorem nonce_pairs_distinct_witness:
  "distinct (prefix_in_use used_session @ run_draws demo_aead demo_calls used_session)
   \<and> run_pairs demo_aead demo_calls used_session =
       [(replicate 16 7, [0, 1, 2, 3, 4, 5, 6, 7, 0, 0, 0, 2]),
        (replicate 16 7, [0, 1, 2, 3, 4, 5, 6, 7, 0, 0, 0, 4]),
        ([8, 9, 10, 11, 12, 13, 14, 15, 16, 17, 18, 19, 20, 21, 22, 23],
         [0, 1, 2, 3, 4, 5, 6, 7, 0, 0, 0, 5])]
   \<and> distinct (run_pairs demo_aead demo_calls used_session)
   \<and> persistent_iv used_session
   \<and> iv_counter used_session + int (length demo_calls) \<le> max_iv_counter used_session
   \<and> distinct (prefix_in_use random_session @ run_draws demo_aead demo_calls random_session)
   \<and> distinct (run_pairs demo_aead demo_calls random_session)
   \<and> \<not> persistent_iv random_session
   \<and> run_nonces demo_aead demo_calls random_session
       = run_draws demo_aead demo_calls random_session"
proof -
  have d1: "distinct (prefix_in_use used_session @ run_draws demo_aead demo_calls used_session)"
    unfolding demo_run_used(1) by simp
  have d2: "distinct (prefix_in_use random_session
                       @ run_draws demo_aead demo_calls random_session)"
    unfolding demo_run_random by simp
  from nonce_pairs_distinct [OF demo_sessions_reachable(2), of demo_calls] d1
  have 1: "distinct (run_pairs demo_aead demo_calls used_session)" by blast
  from nonce_pairs_distinct [OF demo_sessions_reachable(4), of demo_calls] d2
  have 2: "distinct (run_pairs demo_aead demo_calls random_session)" by blast
  from nonce_pairs_distinct [OF demo_sessions_reachable(4), of demo_calls]
    demo_run_random_nonces(2)
  have 3: "run_nonces demo_aead demo_calls random_session
             = run_draws demo_aead demo_calls random_session" by blast
  from d1 d2 1 2 3 demo_run_used(2) used_session_state(1) used_session_room
    demo_run_random_nonces(2) show ?thesis
    by blast
qed

section \<open>A repeated pair\<close>

lemma fst_generate_ivs_Suc:
  "fst (generate_ivs (Suc n) w) = fst (generate_iv w) # fst (generate_ivs n (snd (generate_iv w)))"
  by (simp add: case_prod_beta)

lemma encrypt_key_iv_keyed:
  assumes "key w = Some k"
  shows "fst (encrypt_key_iv w) = (case fst (generate_iv w) of Inl e \<Rightarrow> Inl e | Inr iv \<Rightarrow> Inr (k, iv))"
    and "snd (encrypt_key_iv w) = snd (generate_iv w)"
  using assms by (simp_all add: encrypt_key_iv_def split: prod.splits sum.splits)

lemma encrypt_pairs_keyed:
  assumes "key w = Some k"
  shows "encrypt_pairs eng ms w =
           concat (map (\<lambda>r. case r of Inl e \<Rightarrow> [] | Inr iv \<Rightarrow> [(k, iv)])
                     (fst (generate_ivs (length ms) w)))"
  using assms
proof (induction ms arbitrary: w)
  case Nil
  show ?case by simp
next
  case (Cons m ms)
  obtain p a where m: "m = (p, a)" by (cases m)
  let ?w1 = "snd (generate_iv w)"
  have k1: "key ?w1 = Some k"
    using Cons.prems by (simp add: generate_iv_key)
  have s: "snd (encrypt eng p a w) = ?w1"
    by (simp add: snd_encrypt encrypt_key_iv_keyed(2) [OF Cons.prems])
  show ?case
    unfolding m encrypt_pairs.simps s Cons.IH [OF k1] encrypt_key_iv_keyed(1) [OF Cons.prems]
    by (simp add: fst_generate_ivs_Suc del: generate_ivs.simps split: sum.splits)
qed

lemma encrypt_key_iv_unkeyed:
  assumes "key w = None" and "urandom_refuses (key_bytes w) = None"
  shows "encrypt_key_iv w = encrypt_key_iv (snd (generate_key w))"
  using assms by (simp add: encrypt_key_iv_def generate_key_cases)

lemma encrypt_pairs_unkeyed:
  assumes "key w = None" and "urandom_refuses (key_bytes w) = None"
  shows "encrypt_pairs eng ms w = encrypt_pairs eng ms (snd (generate_key w))"
proof (cases ms)
  case Nil
  then show ?thesis by simp
next
  case (Cons m ms')
  obtain p a where m: "m = (p, a)" by (cases m)
  have "encrypt eng p a w = encrypt eng p a (snd (generate_key w))"
    unfolding encrypt_def encrypt_key_iv_unkeyed [OF assms] by (rule refl)
  then show ?thesis
    unfolding Cons m encrypt_pairs.simps encrypt_key_iv_unkeyed [OF assms] by simp
qed

lemma encrypt_pairs_closed_keyed:
  assumes "key w = Some k"
    and "fst (generate_ivs (length ms) w) = map (\<lambda>i. Inr (F i)) [0..<length ms]"
  shows "encrypt_pairs eng ms w = map (\<lambda>i. (k, F i)) [0..<length ms]"
  by (simp add: encrypt_pairs_keyed [OF assms(1)] assms(2) comp_def)

lemma distinct_keyed:
  "distinct (map (\<lambda>i. (k, F i)) xs) = distinct (map F xs)"
  by (simp add: distinct_map inj_on_def)

lemma persistent_pairs_repeat:
  "\<not> distinct (encrypt_pairs demo_aead (replicate 4294967296 (demo_plaintext, None))
                 (init 128 True zero_entropy))"
proof
  let ?w = "init 128 True zero_entropy"
  let ?w1 = "snd (generate_key ?w)"
  let ?ms = "replicate 4294967296 (demo_plaintext, None) :: (bytes \<times> bytes option) list"
  let ?k = "map zero_entropy [0..<16]"
  assume d: "distinct (encrypt_pairs demo_aead ?ms ?w)"
  have w1: "?w1 = ?w\<lparr>key := Some ?k, entropy := (\<lambda>i. zero_entropy (i + 16))\<rparr>"
    by (simp add: generate_key_cases urandom_refuses_def init_def)
  have e: "entropy ?w1 = zero_entropy"
    unfolding w1 by (simp add: zero_entropy_def fun_eq_iff)
  have k: "key ?w1 = Some ?k" unfolding w1 by simp
  have f: "fresh_persistent ?w1"
    unfolding w1 by (simp add: fresh_persistent_def init_def)
  have "encrypt_pairs demo_aead ?ms ?w = encrypt_pairs demo_aead ?ms ?w1"
    by (rule encrypt_pairs_unkeyed) (simp_all add: init_def urandom_refuses_def)
  also have "\<dots> = map (\<lambda>i. (?k, nonce_at (entropy ?w1) i)) [0..<length ?ms]"
    using generate_ivs_fresh [OF f, of "length ?ms"]
    by (rule encrypt_pairs_closed_keyed [OF k])
  finally have c: "encrypt_pairs demo_aead ?ms ?w =
                     map (\<lambda>i. (?k, nonce_at zero_entropy i)) [0..<4294967296]"
    by (simp only: e length_replicate)
  from d have "distinct (map (nonce_at zero_entropy) [0..<4294967296])"
    by (simp only: c distinct_keyed)
  then have i: "inj_on (nonce_at zero_entropy) {0..<4294967296}"
    unfolding distinct_map set_upt by (rule conjunct2)
  have n: "nonce_at zero_entropy 0 = nonce_at zero_entropy 4294967295"
    by (simp add: nonce_at_def prefix_at_def zero_entropy_def)
  have "(0::nat) \<in> {0..<4294967296}" "(4294967295::nat) \<in> {0..<4294967296}"
    by simp_all
  with i n have "(0::nat) = 4294967295"
    by (rule inj_onD)
  then show False by simp
qed

lemma run_pairs_encrypts:
  "run_pairs eng (map (\<lambda>(p, a). Encrypt p a) ms) w = encrypt_pairs eng ms w"
  by (induction ms arbitrary: w) (auto split: sum.splits)

lemma random_pairs_repeat:
  "run_pairs demo_aead two_encryptions (init 128 False zero_entropy) =
     [(replicate 16 0, replicate 12 0), (replicate 16 0, replicate 12 0)]"
  by code_simp

text \<open>
  The claim as stated fails, since nothing keeps the operating system from returning
  the same bytes again. With random bytes that are all zero, two encryptions under the
  random strategy use the same key and the same nonce; and under the persistent
  strategy the prefix drawn at counter exhaustion equals the first one, so that call
  number \<open>2^32\<close> repeats the pair of the first call.
\<close>

theorem nonce_pairs_distinct_counterexample:
  "run_pairs demo_aead two_encryptions (init 128 False zero_entropy) =
     [(replicate 16 0, replicate 12 0), (replicate 16 0, replicate 12 0)]
   \<and> \<not> distinct (run_pairs demo_aead two_encryptions (init 128 False zero_entropy))
   \<and> \<not> distinct (run_pairs demo_aead (replicate 4294967296 (Encrypt demo_plaintext None))
                    (init 128 True zero_entropy))"
proof -
  have 1: "\<not> distinct (run_pairs demo_aead two_encryptions (init 128 False zero_entropy))"
    unfolding random_pairs_repeat by simp
  have link: "run_pairs demo_aead (replicate 4294967296 (Encrypt demo_plaintext None))
          (init 128 True zero_entropy) =
        encrypt_pairs demo_aead (replicate 4294967296 (demo_plaintext, None))
          (init 128 True zero_entropy)"
    using run_pairs_encrypts [of demo_aead "replicate 4294967296 (demo_plaintext, None)"
            "init 128 True zero_entropy"]
    by (simp only: map_replicate prod.case)
  have 2: "\<not> distinct (run_pairs demo_aead
                    (replicate 4294967296 (Encrypt demo_plaintext None))
                    (init 128 True zero_entropy))"
    unfolding link by (rule persistent_pairs_repeat)
  from random_pairs_repeat 1 2 show ?thesis
    by blast
qed

end
